theory Spec2Isabelle
  imports Main "HOL-Library.Multiset" "HOL-Library.Signed_Division"
begin

section \<open>Arrays and allocation\<close>

text \<open>
  A C array is a list and an index is a natural number; the sorts receive the array
  together with its length \<open>sz\<close>, as the C functions do.  Where a loop counter or a
  bound can go below zero in the C code (\<open>gt\<close> in the three-way partition, the
  counters of the downward loops), it is an \<open>int\<close>.  The in-place quicksorts and heap
  sort work on \<open>int list\<close>.  In the sorts that are stable (\<open>mergesort\<close>, \<open>radix_sort\<close>,
  \<open>counting_sort\<close>, \<open>quicksort_functional\<close>) array elements are written \<open>'a\<close> with a
  function \<open>key\<close> that gives the \<open>int\<close> the C code compares: the C program is the
  instance where the element is the \<open>int\<close> itself (\<open>key = (\<lambda>x. x)\<close>), and an element
  that carries a tag beside its value (\<open>key = fst\<close>) states stability.

  \<open>swap\<close> is the three-assignment exchange through \<open>temp\<close> (a function in heap_sort.c,
  written inline in quicksort.c).  \<open>sl xs l h\<close> is the segment of the cells \<open>l..h-1\<close>.
\<close>

definition swap :: "'a list \<Rightarrow> nat \<Rightarrow> nat \<Rightarrow> 'a list" where
  "swap arr i j = (let temp = arr ! i in (arr[i := arr ! j])[j := temp])"

definition sl :: "'a list \<Rightarrow> nat \<Rightarrow> nat \<Rightarrow> 'a list" where
  "sl xs l h = take (h - l) (drop l xs)"

text \<open>
  Whether a request to \<open>malloc\<close> or \<open>calloc\<close> succeeds is not decided by the program.
  The outcomes of the successive requests are a list of booleans that the allocating
  functions consume in order; once the list is used up every request succeeds.
\<close>

type_synonym allocs = "bool list"

fun alloc :: "allocs \<Rightarrow> bool \<times> allocs" where
  "alloc [] = (True, [])"
| "alloc (b # h) = (b, h)"

definition all_succeed :: "allocs \<Rightarrow> bool" where
  "all_succeed h = (False \<notin> set h)"

section \<open>quicksort.c: in-place quicksort with the Lomuto partition\<close>

function partition_loop :: "int list \<Rightarrow> int \<Rightarrow> nat \<Rightarrow> nat \<Rightarrow> nat \<Rightarrow> int list \<times> nat" where
  "partition_loop arr pivot i j high =
     (if j < high then
        (if arr ! j \<le> pivot then partition_loop (swap arr i j) pivot (i + 1) (j + 1) high
         else partition_loop arr pivot i (j + 1) high)
      else (arr, i))"
  by pat_completeness auto
termination
  by (relation "measure (\<lambda>(arr, pivot, i, j, high). high - j)") auto

declare partition_loop.simps [simp del]

definition partition_arr :: "int list \<Rightarrow> nat \<Rightarrow> nat \<Rightarrow> int list \<times> nat" where
  "partition_arr arr low high =
     (let pivot = arr ! high;
          (arr', i) = partition_loop arr pivot low low high
      in (swap arr' i high, i))"

function quicksort_range :: "int list \<Rightarrow> nat \<Rightarrow> nat \<Rightarrow> int list" where
  "quicksort_range arr low high =
     (if low < high then
        (case partition_arr arr low high of (arr1, pivot_index) \<Rightarrow>
           (let arr2 = (if pivot_index > 0 then quicksort_range arr1 low (pivot_index - 1) else arr1)
            in (if pivot_index + 1 \<le> high then quicksort_range arr2 (pivot_index + 1) high else arr2)))
      else arr)"
  by pat_completeness auto

lemma partition_loop_stop: "\<not> j < high \<Longrightarrow> partition_loop arr pivot i j high = (arr, i)"
  by (subst partition_loop.simps) simp

lemma partition_loop_le: "j < high \<Longrightarrow> arr ! j \<le> pivot \<Longrightarrow>
  partition_loop arr pivot i j high = partition_loop (swap arr i j) pivot (i + 1) (j + 1) high"
  by (subst partition_loop.simps) simp

lemma partition_loop_gt: "j < high \<Longrightarrow> \<not> arr ! j \<le> pivot \<Longrightarrow>
  partition_loop arr pivot i j high = partition_loop arr pivot i (j + 1) high"
  by (subst partition_loop.simps) simp

lemma partition_loop_bounds:
  "partition_loop arr pivot i j high = (arr', i') \<Longrightarrow> i \<le> j \<Longrightarrow> j \<le> high \<Longrightarrow> i \<le> i' \<and> i' \<le> high"
proof (induction arr pivot i j high rule: partition_loop.induct)
  case (1 arr pivot i j high)
  show ?case
  proof (cases "j < high")
    case False
    with "1.prems" show ?thesis by (simp add: partition_loop_stop)
  next
    case jh: True
    show ?thesis
    proof (cases "arr ! j \<le> pivot")
      case True
      with "1.IH"(1)[OF jh True] "1.prems" jh show ?thesis
        by (simp add: partition_loop_le)
    next
      case False
      with "1.IH"(2)[OF jh False] "1.prems" jh show ?thesis
        by (simp add: partition_loop_gt)
    qed
  qed
qed

lemma partition_arr_bounds:
  "partition_arr arr low high = (arr', i) \<Longrightarrow> low \<le> high \<Longrightarrow> low \<le> i \<and> i \<le> high"
  by (auto simp: partition_arr_def Let_def split: prod.splits dest: partition_loop_bounds)

termination quicksort_range
proof (relation "measure (\<lambda>(arr, low, high). high - low)", goal_cases)
  case 1
  show ?case by simp
next
  case (2 arr low high x y)
  then show ?case using partition_arr_bounds[of arr low high x y] by auto
next
  case (3 arr low high x y)
  then show ?case using partition_arr_bounds[of arr low high x y] by auto
qed

declare quicksort_range.simps [simp del]

definition quicksort_inplace :: "int list \<Rightarrow> nat \<Rightarrow> int list" where
  "quicksort_inplace arr sz = (if sz > 1 then quicksort_range arr 0 (sz - 1) else arr)"

section \<open>quicksort.c: three-way quicksort\<close>

text \<open>
  One iteration of the partition loop is \<open>three_way_step\<close>; the loop runs it while
  \<open>i \<le> gt\<close>.  \<open>gt\<close> is an \<open>int\<close>: the C code decrements it, and only the loop
  condition keeps it from going below \<open>i - 1\<close>.
\<close>

fun three_way_step :: "int list \<times> int \<times> nat \<times> nat \<times> int \<Rightarrow> int list \<times> int \<times> nat \<times> nat \<times> int" where
  "three_way_step (arr, pivot, lt, i, gt) =
     (if arr ! i < pivot then (swap arr i lt, pivot, lt + 1, i + 1, gt)
      else if arr ! i > pivot then (swap arr i (nat gt), pivot, lt, i, gt - 1)
      else (arr, pivot, lt, i + 1, gt))"

function three_way_loop :: "int list \<times> int \<times> nat \<times> nat \<times> int \<Rightarrow> int list \<times> nat \<times> int" where
  "three_way_loop (arr, pivot, lt, i, gt) =
     (if int i \<le> gt then three_way_loop (three_way_step (arr, pivot, lt, i, gt))
      else (arr, lt, gt))"
  by pat_completeness auto
termination
  by (relation "measure (\<lambda>(arr, pivot, lt, i, gt). nat (gt + 1 - int i))") auto

declare three_way_loop.simps [simp del]

lemma three_way_loop_unfold:
  "three_way_loop (arr, pivot, lt, i, gt) =
     (if int i \<le> gt then three_way_loop (three_way_step (arr, pivot, lt, i, gt)) else (arr, lt, gt))"
  by (rule three_way_loop.simps)

lemma three_way_loop_bounds_aux:
  "three_way_loop s = (arr', lt', gt') \<Longrightarrow> s = (arr, pivot, lt, i, gt) \<Longrightarrow> lt < i \<Longrightarrow> int i \<le> gt + 1 \<Longrightarrow>
     lt \<le> lt' \<and> int lt' \<le> gt' \<and> int i - 1 \<le> gt' \<and> gt' \<le> gt"
proof (induction s arbitrary: arr pivot lt i gt rule: three_way_loop.induct)
  case (1 arr0 pivot0 lt0 i0 gt0)
  have eqs: "arr0 = arr" "pivot0 = pivot" "lt0 = lt" "i0 = i" "gt0 = gt"
    using "1.prems"(2) by simp_all
  show ?case
  proof (cases "int i \<le> gt")
    case False
    with "1.prems" show ?thesis unfolding eqs by (simp add: three_way_loop_unfold)
  next
    case True
    obtain a2 p2 l2 i2 g2 where st: "three_way_step (arr, pivot, lt, i, gt) = (a2, p2, l2, i2, g2)"
      by (cases "three_way_step (arr, pivot, lt, i, gt)") auto
    have loop: "three_way_loop (three_way_step (arr, pivot, lt, i, gt)) = (arr', lt', gt')"
      using "1.prems"(1) True unfolding eqs by (simp add: three_way_loop_unfold)
    have b: "l2 < i2" "int i2 \<le> g2 + 1" "lt \<le> l2" "i \<le> i2" "g2 \<le> gt"
      using st "1.prems"(3,4) True by (auto split: if_splits)
    from "1.IH"[unfolded eqs, OF True loop st b(1,2)] b show ?thesis by auto
  qed
qed

lemma three_way_loop_bounds:
  "three_way_loop (arr, pivot, lt, i, gt) = (arr', lt', gt') \<Longrightarrow> lt < i \<Longrightarrow> int i \<le> gt + 1 \<Longrightarrow>
     lt \<le> lt' \<and> int lt' \<le> gt' \<and> int i - 1 \<le> gt' \<and> gt' \<le> gt"
  by (rule three_way_loop_bounds_aux[OF _ refl])

function three_way_partition_sort :: "int list \<Rightarrow> nat \<Rightarrow> nat \<Rightarrow> int list" where
  "three_way_partition_sort arr low high =
     (if low \<ge> high then arr
      else
        (case three_way_loop (arr, arr ! low, low, low + 1, int high) of (arr1, lt, gt) \<Rightarrow>
           (let arr2 = (if lt > 0 then three_way_partition_sort arr1 low (lt - 1) else arr1)
            in three_way_partition_sort arr2 (nat (gt + 1)) high)))"
  by pat_completeness auto
termination
proof (relation "measure (\<lambda>(arr, low, high). high - low)", goal_cases)
  case 1
  show ?case by simp
next
  case (2 arr low high x lt y gt)
  then show ?case
    using three_way_loop_bounds[of arr "arr ! low" low "low + 1" "int high" x y gt] by auto
next
  case (3 arr low high x lt y gt)
  then show ?case
    using three_way_loop_bounds[of arr "arr ! low" low "low + 1" "int high" x y gt] by auto
qed

declare three_way_partition_sort.simps [simp del]

definition quicksort_three_way :: "int list \<Rightarrow> nat \<Rightarrow> int list" where
  "quicksort_three_way arr sz = (if sz \<le> 1 then arr else three_way_partition_sort arr 0 (sz - 1))"

section \<open>mergesort.c\<close>

text \<open>
  \<open>merge\<close> requests its two temporaries first and returns at once, the array untouched,
  when either request failed (the C function prints a message and returns; being
  \<open>void\<close> it tells its caller nothing).  The two loops that copy what is left of one
  run are the same loop, \<open>copy_rest\<close>.  The callers pass \<open>left \<le> mid \<le> right\<close>, so the
  sizes \<open>mid - left + 1\<close> and \<open>right - mid\<close> are not negative.
\<close>

function merge_main ::
  "('a \<Rightarrow> int) \<Rightarrow> 'a list \<Rightarrow> 'a list \<Rightarrow> nat \<Rightarrow> 'a list \<Rightarrow> nat \<Rightarrow> nat \<Rightarrow> nat \<Rightarrow> nat
     \<Rightarrow> 'a list \<times> nat \<times> nat \<times> nat" where
  "merge_main key arr left_arr left_size right_arr right_size i j k =
     (if i < left_size \<and> j < right_size then
        (if key (left_arr ! i) \<le> key (right_arr ! j)
         then merge_main key (arr[k := left_arr ! i]) left_arr left_size right_arr right_size (i + 1) j (k + 1)
         else merge_main key (arr[k := right_arr ! j]) left_arr left_size right_arr right_size i (j + 1) (k + 1))
      else (arr, i, j, k))"
  by pat_completeness auto
termination
  by (relation "measure (\<lambda>(key, arr, left_arr, left_size, right_arr, right_size, i, j, k).
        (left_size - i) + (right_size - j))") auto

declare merge_main.simps [simp del]

function copy_rest :: "'a list \<Rightarrow> 'a list \<Rightarrow> nat \<Rightarrow> nat \<Rightarrow> nat \<Rightarrow> 'a list \<times> nat" where
  "copy_rest arr src n i k =
     (if i < n then copy_rest (arr[k := src ! i]) src n (i + 1) (k + 1) else (arr, k))"
  by pat_completeness auto
termination
  by (relation "measure (\<lambda>(arr, src, n, i, k). n - i)") auto

declare copy_rest.simps [simp del]

definition merge :: "('a \<Rightarrow> int) \<Rightarrow> allocs \<Rightarrow> 'a list \<Rightarrow> nat \<Rightarrow> nat \<Rightarrow> nat \<Rightarrow> allocs \<times> 'a list" where
  "merge key h arr left mid right =
     (let left_size = mid - left + 1;
          right_size = right - mid;
          (left_ok, h1) = alloc h;
          (right_ok, h2) = alloc h1
      in if \<not> left_ok \<or> \<not> right_ok then (h2, arr)
         else
           (let left_arr = map (\<lambda>i. arr ! (left + i)) [0..<left_size];
                right_arr = map (\<lambda>j. arr ! (mid + 1 + j)) [0..<right_size];
                (arr1, i, j, k) = merge_main key arr left_arr left_size right_arr right_size 0 0 left;
                (arr2, k2) = copy_rest arr1 left_arr left_size i k;
                (arr3, k3) = copy_rest arr2 right_arr right_size j k2
            in (h2, arr3)))"

function mergesort_recursive :: "('a \<Rightarrow> int) \<Rightarrow> allocs \<Rightarrow> 'a list \<Rightarrow> nat \<Rightarrow> nat \<Rightarrow> allocs \<times> 'a list" where
  "mergesort_recursive key h arr left right =
     (if left < right then
        (let mid = left + (right - left) div 2 in
         (case mergesort_recursive key h arr left mid of (h1, arr1) \<Rightarrow>
           (case mergesort_recursive key h1 arr1 (mid + 1) right of (h2, arr2) \<Rightarrow>
              merge key h2 arr2 left mid right)))
      else (h, arr))"
  by pat_completeness auto
termination
  by (relation "measure (\<lambda>(key, h, arr, left, right). right - left)") auto

declare mergesort_recursive.simps [simp del]

definition mergesort :: "('a \<Rightarrow> int) \<Rightarrow> allocs \<Rightarrow> 'a list \<Rightarrow> nat \<Rightarrow> allocs \<times> 'a list" where
  "mergesort key h arr sz = (if sz > 1 then mergesort_recursive key h arr 0 (sz - 1) else (h, arr))"

section \<open>heap_sort.c\<close>

function heapify :: "int list \<Rightarrow> nat \<Rightarrow> nat \<Rightarrow> int list" where
  "heapify arr heap_size i =
     (let left = 2 * i + 1;
          right = 2 * i + 2;
          largest = (if left < heap_size \<and> arr ! left > arr ! i then left else i);
          largest = (if right < heap_size \<and> arr ! right > arr ! largest then right else largest)
      in if largest \<noteq> i then heapify (swap arr i largest) heap_size largest else arr)"
  by pat_completeness auto
termination
  by (relation "measure (\<lambda>(arr, heap_size, i). heap_size - i)") (auto split: if_splits)

declare heapify.simps [simp del]

text \<open>The loop of \<open>build_max_heap\<close> counts \<open>i\<close> down from \<open>size / 2 - 1\<close> while \<open>i \<ge> 0\<close>.\<close>

function build_max_heap_loop :: "int list \<Rightarrow> nat \<Rightarrow> int \<Rightarrow> int list" where
  "build_max_heap_loop arr sz i =
     (if i \<ge> 0 then build_max_heap_loop (heapify arr sz (nat i)) sz (i - 1) else arr)"
  by pat_completeness auto
termination
  by (relation "measure (\<lambda>(arr, sz, i). nat (i + 1))") auto

declare build_max_heap_loop.simps [simp del]

definition build_max_heap :: "int list \<Rightarrow> nat \<Rightarrow> int list" where
  "build_max_heap arr sz = (let last_non_leaf = int (sz div 2) - 1 in build_max_heap_loop arr sz last_non_leaf)"

function heap_sort_loop :: "int list \<Rightarrow> nat \<Rightarrow> int list" where
  "heap_sort_loop arr i =
     (if i > 0 then heap_sort_loop (heapify (swap arr 0 i) i 0) (i - 1) else arr)"
  by pat_completeness auto
termination
  by (relation "measure (\<lambda>(arr, i). i)") auto

declare heap_sort_loop.simps [simp del]

definition heap_sort :: "int list \<Rightarrow> nat \<Rightarrow> int list" where
  "heap_sort arr sz = (if sz \<le> 1 then arr else heap_sort_loop (build_max_heap arr sz) (sz - 1))"

section \<open>counting_sort.c and radix_sort.c\<close>

text \<open>
  The C \<open>int\<close> has 32 bits and array cells hold values of that range.  The code
  computes past the range in two places.  In \<open>radix_sort\<close>, \<open>exp *= RADIX\<close> goes past
  \<open>INT_MAX\<close> after the pass with \<open>exp = 1000000000\<close>; signed overflow is undefined
  behaviour in C, what the program does from there on is not determined by its source,
  and the loop has no result (\<open>None\<close>) there.  In \<open>counting_sort\<close>, \<open>max + 1\<close> goes
  past \<open>INT_MAX\<close> when \<open>max = INT_MAX\<close>; the sum is written with the wrap-around of the
  machine (\<open>wrap32\<close>) and is then the count of the request to \<open>calloc\<close>.  C division
  truncates towards zero (\<open>sdiv\<close>, \<open>smod\<close>).
\<close>

definition INT_MAX :: int where
  "INT_MAX = 2147483647"

definition wrap32 :: "int \<Rightarrow> int" where
  "wrap32 x = (x + 2147483648) mod 4294967296 - 2147483648"

definition in_int :: "int \<Rightarrow> bool" where
  "in_int x = (- INT_MAX - 1 \<le> x \<and> x \<le> INT_MAX)"

definition RADIX :: int where
  "RADIX = 10"

function find_max_loop :: "('a \<Rightarrow> int) \<Rightarrow> 'a list \<Rightarrow> nat \<Rightarrow> nat \<Rightarrow> int \<Rightarrow> int" where
  "find_max_loop key arr sz i mx =
     (if i < sz then find_max_loop key arr sz (i + 1) (if key (arr ! i) > mx then key (arr ! i) else mx)
      else mx)"
  by pat_completeness auto
termination
  by (relation "measure (\<lambda>(key, arr, sz, i, mx). sz - i)") auto

declare find_max_loop.simps [simp del]

definition find_max :: "('a \<Rightarrow> int) \<Rightarrow> 'a list \<Rightarrow> nat \<Rightarrow> int" where
  "find_max key arr sz = find_max_loop key arr sz 1 (key (arr ! 0))"

text \<open>
  Both sorts run the same three loops over a table \<open>count\<close>, indexed by a bucket
  \<open>b x\<close> of the element: the digit \<open>(x / exp) % RADIX\<close> in \<open>counting_sort_by_digit\<close>,
  the value itself in \<open>counting_sort\<close>.  \<open>tally\<close> counts the elements of each bucket,
  \<open>cumulate\<close> turns the counts into running totals, and \<open>place\<close> scans the array from
  its last cell to its first, lowers the total of the element's bucket by one and
  writes the element at that index of the output buffer.  An index outside its array is a
  fault of the C program (\<open>None\<close>).  The cells of the output buffer start
  indeterminate (\<open>None\<close>); \<open>copy_back\<close> is the \<open>memcpy\<close> into \<open>arr\<close>, and reading a
  cell that was never written is a fault as well.
\<close>

function tally :: "('a \<Rightarrow> int) \<Rightarrow> 'a list \<Rightarrow> nat \<Rightarrow> nat \<Rightarrow> nat list \<Rightarrow> nat list option" where
  "tally b arr sz i cnt =
     (if i < sz then
        (let d = b (arr ! i) in
         if 0 \<le> d \<and> d < int (length cnt)
         then tally b arr sz (i + 1) (cnt[nat d := cnt ! nat d + 1])
         else None)
      else Some cnt)"
  by pat_completeness auto
termination
  by (relation "measure (\<lambda>(b, arr, sz, i, cnt). sz - i)") auto

declare tally.simps [simp del]

function cumulate :: "nat list \<Rightarrow> nat \<Rightarrow> nat \<Rightarrow> nat list" where
  "cumulate cnt n i =
     (if i < n then cumulate (cnt[i := cnt ! i + cnt ! (i - 1)]) n (i + 1) else cnt)"
  by pat_completeness auto
termination
  by (relation "measure (\<lambda>(cnt, n, i). n - i)") auto

declare cumulate.simps [simp del]

function place :: "('a \<Rightarrow> int) \<Rightarrow> 'a list \<Rightarrow> int \<Rightarrow> nat list \<Rightarrow> 'a option list \<Rightarrow> 'a option list option" where
  "place b arr i cnt output =
     (if i \<ge> 0 then
        (let d = b (arr ! nat i) in
         if 0 \<le> d \<and> d < int (length cnt) then
           (let c = int (cnt ! nat d) - 1 in
            if 0 \<le> c \<and> c < int (length output)
            then place b arr (i - 1) (cnt[nat d := nat c]) (output[nat c := Some (arr ! nat i)])
            else None)
         else None)
      else Some output)"
  by pat_completeness auto
termination
  by (relation "measure (\<lambda>(b, arr, i, cnt, output). nat (i + 1))") auto

declare place.simps [simp del]

definition copy_back :: "'a list \<Rightarrow> 'a option list \<Rightarrow> nat \<Rightarrow> 'a list option" where
  "copy_back arr output sz =
     (if list_all (\<lambda>c. c \<noteq> None) (take sz output)
      then Some (map the (take sz output) @ drop sz arr) else None)"

definition digit :: "('a \<Rightarrow> int) \<Rightarrow> int \<Rightarrow> 'a \<Rightarrow> int" where
  "digit key exp x = (key x sdiv exp) smod RADIX"

definition counting_sort_by_digit ::
  "('a \<Rightarrow> int) \<Rightarrow> allocs \<Rightarrow> 'a list \<Rightarrow> nat \<Rightarrow> int \<Rightarrow> (allocs \<times> 'a list) option" where
  "counting_sort_by_digit key h arr sz exp =
     (let (ok, h1) = alloc h in
      if \<not> ok then Some (h1, arr)
      else if exp = 0 \<and> sz > 0 then None
      else
        (case tally (digit key exp) arr sz 0 (replicate (nat RADIX) 0) of
           None \<Rightarrow> None
         | Some cnt \<Rightarrow>
            (case place (digit key exp) arr (int sz - 1) (cumulate cnt (nat RADIX) 1) (replicate sz None) of
               None \<Rightarrow> None
             | Some output \<Rightarrow> map_option (Pair h1) (copy_back arr output sz))))"

partial_function (option) radix_sort_loop ::
  "('a \<Rightarrow> int) \<Rightarrow> allocs \<Rightarrow> 'a list \<Rightarrow> nat \<Rightarrow> int \<Rightarrow> int \<Rightarrow> (allocs \<times> 'a list) option" where
  "radix_sort_loop key h arr sz mx exp =
     (if exp = 0 then None
      else if mx sdiv exp > 0 then
        Option.bind (counting_sort_by_digit key h arr sz exp)
          (\<lambda>(h1, arr1). if in_int (exp * RADIX) then radix_sort_loop key h1 arr1 sz mx (exp * RADIX)
                         else None)
      else Some (h, arr))"

declare radix_sort_loop.simps [code]

definition radix_sort :: "('a \<Rightarrow> int) \<Rightarrow> allocs \<Rightarrow> 'a list \<Rightarrow> nat \<Rightarrow> (allocs \<times> 'a list) option" where
  "radix_sort key h arr sz =
     (if sz \<le> 1 then Some (h, arr)
      else (let mx = find_max key arr sz in radix_sort_loop key h arr sz mx 1))"

text \<open>
  \<open>calloc(max + 1, sizeof(int))\<close> takes its count as a \<open>size_t\<close>: a negative \<open>int\<close> is
  converted to a count that no allocation can satisfy, so the request fails whatever
  memory is free.
\<close>

definition calloc :: "allocs \<Rightarrow> int \<Rightarrow> bool \<times> allocs" where
  "calloc h n = (let (ok, h1) = alloc h in (ok \<and> 0 \<le> n, h1))"

definition counting_sort :: "('a \<Rightarrow> int) \<Rightarrow> allocs \<Rightarrow> 'a list \<Rightarrow> nat \<Rightarrow> (allocs \<times> 'a list) option" where
  "counting_sort key h arr sz =
     (if sz \<le> 1 then Some (h, arr)
      else
        (let mx = find_max key arr sz;
             n = wrap32 (mx + 1);
             (ok, h1) = calloc h n
         in if \<not> ok then Some (h1, arr)
            else
              (case tally key arr sz 0 (replicate (nat n) 0) of
                 None \<Rightarrow> None
               | Some cnt \<Rightarrow>
                  (let cnt' = cumulate cnt (nat n) 1;
                       (ok2, h2) = alloc h1
                   in if \<not> ok2 then Some (h2, arr)
                      else
                        (case place key arr (int sz - 1) cnt' (replicate sz None) of
                           None \<Rightarrow> None
                         | Some output \<Rightarrow> map_option (Pair h2) (copy_back arr output sz))))))"

section \<open>quicksort.c: the functional quicksort, on an explicit store\<close>

text \<open>
  \<open>quicksort_functional\<close> takes a pointer and returns a pointer to a buffer of its own,
  so its model keeps the buffers in a store: \<open>blocks\<close> maps the address of each live
  block to its cells, a cell being \<open>None\<close> until it is written; \<open>fresh\<close> is the next
  address \<open>malloc\<close> hands out; \<open>outcomes\<close> are the outcomes of the coming requests.
  A pointer is an address or \<open>NULL\<close> (\<open>None\<close>).  Reading or writing through \<open>NULL\<close>,
  through a pointer to no live block or past the end of a block, and reading a cell that
  was never written, are faults of the C program: the functions return \<open>None\<close> there.
\<close>

record 'a mem =
  blocks :: "nat \<rightharpoonup> 'a option list"
  fresh :: nat
  outcomes :: allocs

type_synonym ptr = "nat option"

definition malloc :: "'a mem \<Rightarrow> nat \<Rightarrow> ptr \<times> 'a mem" where
  "malloc m n =
     (let (ok, h) = alloc (outcomes m) in
      if ok
      then (Some (fresh m),
            m\<lparr>blocks := (blocks m)(fresh m \<mapsto> replicate n None), fresh := fresh m + 1, outcomes := h\<rparr>)
      else (None, m\<lparr>outcomes := h\<rparr>))"

definition free :: "'a mem \<Rightarrow> ptr \<Rightarrow> 'a mem" where
  "free m p = (case p of None \<Rightarrow> m | Some a \<Rightarrow> m\<lparr>blocks := (blocks m)(a := None)\<rparr>)"

definition load :: "'a mem \<Rightarrow> ptr \<Rightarrow> nat \<Rightarrow> 'a option" where
  "load m p i =
     (case p of None \<Rightarrow> None
      | Some a \<Rightarrow>
         (case blocks m a of None \<Rightarrow> None
          | Some cells \<Rightarrow> if i < length cells then cells ! i else None))"

definition store :: "'a mem \<Rightarrow> ptr \<Rightarrow> nat \<Rightarrow> 'a \<Rightarrow> 'a mem option" where
  "store m p i v =
     (case p of None \<Rightarrow> None
      | Some a \<Rightarrow>
         (case blocks m a of None \<Rightarrow> None
          | Some cells \<Rightarrow>
             if i < length cells then Some (m\<lparr>blocks := (blocks m)(a \<mapsto> cells[i := Some v])\<rparr>) else None))"

text \<open>The counting loop and the filling loop of \<open>quicksort_functional\<close>.\<close>

function count_loop ::
  "('a \<Rightarrow> int) \<Rightarrow> 'a mem \<Rightarrow> ptr \<Rightarrow> nat \<Rightarrow> int \<Rightarrow> nat \<Rightarrow> nat \<times> nat \<times> nat \<Rightarrow> (nat \<times> nat \<times> nat) option" where
  "count_loop key m arr sz pivot i (less_count, equal_count, greater_count) =
     (if i < sz then
        (case load m arr i of None \<Rightarrow> None
         | Some x \<Rightarrow>
            if key x < pivot then count_loop key m arr sz pivot (i + 1) (less_count + 1, equal_count, greater_count)
            else if key x = pivot then count_loop key m arr sz pivot (i + 1) (less_count, equal_count + 1, greater_count)
            else count_loop key m arr sz pivot (i + 1) (less_count, equal_count, greater_count + 1))
      else Some (less_count, equal_count, greater_count))"
  by pat_completeness auto
termination
  by (relation "measure (\<lambda>(key, m, arr, sz, pivot, i, c). sz - i)") auto

declare count_loop.simps [simp del]

function fill_loop ::
  "('a \<Rightarrow> int) \<Rightarrow> 'a mem \<Rightarrow> ptr \<Rightarrow> nat \<Rightarrow> int \<Rightarrow> ptr \<Rightarrow> ptr \<Rightarrow> ptr \<Rightarrow> nat \<Rightarrow> nat \<times> nat \<times> nat \<Rightarrow> 'a mem option" where
  "fill_loop key m arr sz pivot less_buf equal_buf greater_buf i (less_idx, equal_idx, greater_idx) =
     (if i < sz then
        (case load m arr i of None \<Rightarrow> None
         | Some x \<Rightarrow>
            if key x < pivot then
              (case store m less_buf less_idx x of None \<Rightarrow> None
               | Some m' \<Rightarrow> fill_loop key m' arr sz pivot less_buf equal_buf greater_buf (i + 1)
                              (less_idx + 1, equal_idx, greater_idx))
            else if key x = pivot then
              (case store m equal_buf equal_idx x of None \<Rightarrow> None
               | Some m' \<Rightarrow> fill_loop key m' arr sz pivot less_buf equal_buf greater_buf (i + 1)
                              (less_idx, equal_idx + 1, greater_idx))
            else
              (case store m greater_buf greater_idx x of None \<Rightarrow> None
               | Some m' \<Rightarrow> fill_loop key m' arr sz pivot less_buf equal_buf greater_buf (i + 1)
                              (less_idx, equal_idx, greater_idx + 1)))
      else Some m)"
  by pat_completeness auto
termination
  by (relation "measure (\<lambda>(key, m, arr, sz, pivot, lb, eb, gb, i, c). sz - i)") auto

declare fill_loop.simps [simp del]

text \<open>
  \<open>copy_loop\<close> is a loop of \<open>merge_arrays\<close> (\<open>result[idx++] = arr1[i]\<close>); the \<open>memcpy\<close>
  of the base case copies the same way, from index 0 to index 0.
\<close>

function copy_loop :: "'a mem \<Rightarrow> ptr \<Rightarrow> ptr \<Rightarrow> nat \<Rightarrow> nat \<Rightarrow> nat \<Rightarrow> ('a mem \<times> nat) option" where
  "copy_loop m result src n i idx =
     (if i < n then
        (case load m src i of None \<Rightarrow> None
         | Some x \<Rightarrow>
            (case store m result idx x of None \<Rightarrow> None
             | Some m' \<Rightarrow> copy_loop m' result src n (i + 1) (idx + 1)))
      else Some (m, idx))"
  by pat_completeness auto
termination
  by (relation "measure (\<lambda>(m, result, src, n, i, idx). n - i)") auto

declare copy_loop.simps [simp del]

definition merge_arrays ::
  "'a mem \<Rightarrow> ptr \<Rightarrow> nat \<Rightarrow> ptr \<Rightarrow> nat \<Rightarrow> ptr \<Rightarrow> nat \<Rightarrow> ('a mem \<times> ptr) option" where
  "merge_arrays m arr1 size1 arr2 size2 arr3 size3 =
     (let total_size = size1 + size2 + size3;
          (result, m0) = malloc m total_size
      in if result = None then Some (m0, None)
         else
           (case copy_loop m0 result arr1 size1 0 0 of None \<Rightarrow> None
            | Some (m1, idx1) \<Rightarrow>
               (case copy_loop m1 result arr2 size2 0 idx1 of None \<Rightarrow> None
                | Some (m2, idx2) \<Rightarrow>
                   (case copy_loop m2 result arr3 size3 0 idx2 of None \<Rightarrow> None
                    | Some (m3, idx3) \<Rightarrow> Some (m3, result)))))"

lemma count_loop_total:
  "count_loop key m arr sz pivot i (l, e, g) = Some (l', e', g') \<Longrightarrow> i \<le> sz \<Longrightarrow>
     l \<le> l' \<and> e \<le> e' \<and> g \<le> g' \<and> l' + e' + g' = l + e + g + (sz - i) \<and>
     (\<forall>q x. i \<le> q \<and> q < sz \<and> load m arr q = Some x \<and> key x = pivot \<longrightarrow> e < e')"
proof (induction key m arr sz pivot i "(l, e, g)" arbitrary: l e g rule: count_loop.induct)
  case (1 key m arr sz pivot i l e g)
  show ?case
  proof (cases "i < sz")
    case False
    with "1.prems" show ?thesis by (subst (asm) count_loop.simps) auto
  next
    case True
    obtain x where x: "load m arr i = Some x"
      using "1.prems"(1) True by (subst (asm) count_loop.simps) (auto split: option.splits)
    have nxt: "\<And>q. i \<le> q \<Longrightarrow> q \<noteq> i \<Longrightarrow> i + 1 \<le> q" by simp
    consider (lt) "key x < pivot" | (eq) "key x = pivot" | (gt) "key x > pivot" by linarith
    then show ?thesis
    proof cases
      case lt
      have r: "count_loop key m arr sz pivot (i + 1) (l + 1, e, g) = Some (l', e', g')"
        using "1.prems"(1) True x lt by (subst (asm) count_loop.simps) simp
      from "1.hyps"(1)[OF True x lt r] True
      have ih: "l + 1 \<le> l' \<and> e \<le> e' \<and> g \<le> g' \<and> l' + e' + g' = l + 1 + e + g + (sz - (i + 1))"
        "\<forall>q y. i + 1 \<le> q \<and> q < sz \<and> load m arr q = Some y \<and> key y = pivot \<longrightarrow> e < e'"
        by auto
      have "\<forall>q y. i \<le> q \<and> q < sz \<and> load m arr q = Some y \<and> key y = pivot \<longrightarrow> e < e'"
      proof (intro allI impI)
        fix q y assume a: "i \<le> q \<and> q < sz \<and> load m arr q = Some y \<and> key y = pivot"
        then have "q \<noteq> i" using x lt by auto
        then have "i + 1 \<le> q" using a nxt by blast
        then show "e < e'" using ih(2) a by blast
      qed
      then show ?thesis using ih(1) True by simp
    next
      case eq
      have r: "count_loop key m arr sz pivot (i + 1) (l, e + 1, g) = Some (l', e', g')"
        using "1.prems"(1) True x eq by (subst (asm) count_loop.simps) simp
      have nl: "\<not> key x < pivot" using eq by simp
      from "1.hyps"(2)[OF True x nl eq r] True
      have ih: "l \<le> l' \<and> e + 1 \<le> e' \<and> g \<le> g' \<and> l' + e' + g' = l + (e + 1) + g + (sz - (i + 1))"
        by auto
      then show ?thesis using True by auto
    next
      case gt
      have r: "count_loop key m arr sz pivot (i + 1) (l, e, g + 1) = Some (l', e', g')"
        using "1.prems"(1) True x gt by (subst (asm) count_loop.simps) simp
      have nl: "\<not> key x < pivot" "key x \<noteq> pivot" using gt by simp_all
      from "1.hyps"(3)[OF True x nl r] True
      have ih: "l \<le> l' \<and> e \<le> e' \<and> g + 1 \<le> g' \<and> l' + e' + g' = l + e + (g + 1) + (sz - (i + 1))"
        "\<forall>q y. i + 1 \<le> q \<and> q < sz \<and> load m arr q = Some y \<and> key y = pivot \<longrightarrow> e < e'"
        by auto
      have "\<forall>q y. i \<le> q \<and> q < sz \<and> load m arr q = Some y \<and> key y = pivot \<longrightarrow> e < e'"
      proof (intro allI impI)
        fix q y assume a: "i \<le> q \<and> q < sz \<and> load m arr q = Some y \<and> key y = pivot"
        then have "q \<noteq> i" using x gt by auto
        then have "i + 1 \<le> q" using a nxt by blast
        then show "e < e'" using ih(2) a by blast
      qed
      then show ?thesis using ih(1) True by simp
    qed
  qed
qed

lemma count_loop_smaller:
  assumes "count_loop key m arr sz (key pv) 0 (0, 0, 0) = Some (less_count, equal_count, greater_count)"
    and "load m arr (sz div 2) = Some pv" and "\<not> sz \<le> 1"
  shows "less_count < sz \<and> greater_count < sz"
proof -
  from count_loop_total[OF assms(1)]
  have t: "less_count + equal_count + greater_count = sz"
    and e: "\<forall>q x. q < sz \<and> load m arr q = Some x \<and> key x = key pv \<longrightarrow> 0 < equal_count"
    by auto
  have "sz div 2 < sz" using assms(3) by simp
  then have "0 < equal_count" using e assms(2) by blast
  then show ?thesis using t by simp
qed

text \<open>
  The pivot is \<open>arr[size / 2]\<close>.  The three buffers are requested one after the other
  and the check comes after the three requests; a request for an empty buffer may
  return \<open>NULL\<close> and the function goes on.  The results of the two recursive calls are
  handed to \<open>merge_arrays\<close> as they come, \<open>NULL\<close> included.
\<close>

function quicksort_functional :: "('a \<Rightarrow> int) \<Rightarrow> 'a mem \<Rightarrow> ptr \<Rightarrow> nat \<Rightarrow> ('a mem \<times> ptr) option" where
  "quicksort_functional key m arr sz =
     (if sz \<le> 1 then
        (case malloc m sz of (result, m1) \<Rightarrow>
           if result = None then Some (m1, None)
           else map_option (\<lambda>(m2, idx). (m2, result)) (copy_loop m1 result arr sz 0 0))
      else
        (case load m arr (sz div 2) of None \<Rightarrow> None
         | Some pv \<Rightarrow>
            (case count_loop key m arr sz (key pv) 0 (0, 0, 0) of None \<Rightarrow> None
             | Some (less_count, equal_count, greater_count) \<Rightarrow>
                (case malloc m less_count of (less_buf, m1) \<Rightarrow>
                (case malloc m1 equal_count of (equal_buf, m2) \<Rightarrow>
                (case malloc m2 greater_count of (greater_buf, m3) \<Rightarrow>
                   if (less_count > 0 \<and> less_buf = None) \<or> (equal_count > 0 \<and> equal_buf = None)
                        \<or> (greater_count > 0 \<and> greater_buf = None)
                   then Some (free (free (free m3 less_buf) equal_buf) greater_buf, None)
                   else
                     (case fill_loop key m3 arr sz (key pv) less_buf equal_buf greater_buf 0 (0, 0, 0) of
                        None \<Rightarrow> None
                      | Some m4 \<Rightarrow>
                         (case quicksort_functional key m4 less_buf less_count of None \<Rightarrow> None
                          | Some (m5, sorted_less) \<Rightarrow>
                             (case quicksort_functional key m5 greater_buf greater_count of None \<Rightarrow> None
                              | Some (m6, sorted_greater) \<Rightarrow>
                                 (case merge_arrays m6 sorted_less less_count equal_buf equal_count
                                         sorted_greater greater_count of
                                    None \<Rightarrow> None
                                  | Some (m7, result) \<Rightarrow>
                                     (let m8 = free (free (free m7 less_buf) equal_buf) greater_buf;
                                          m9 = (if sorted_less \<noteq> less_buf then free m8 sorted_less else m8);
                                          m10 = (if sorted_greater \<noteq> greater_buf then free m9 sorted_greater else m9)
                                      in Some (m10, result))))))))))))"
  by pat_completeness auto
termination
proof (relation "measure (\<lambda>(key, m, arr, sz). sz)", goal_cases)
  case 1
  show ?case by simp
next
  case (2 key m arr sz pv c less_count c2 equal_count greater_count)
  then show ?case using count_loop_smaller[of key m arr sz pv less_count equal_count greater_count] by auto
next
  case (3 key m arr sz pv c less_count c2 equal_count greater_count)
  then show ?case using count_loop_smaller[of key m arr sz pv less_count equal_count greater_count] by auto
qed

declare quicksort_functional.simps [simp del]

section \<open>Facts about arrays, segments and the allocation outcomes\<close>

lemma length_swap [simp]: "length (swap arr i j) = length arr"
  by (simp add: swap_def)

lemma mset_swap [simp]: "i < length arr \<Longrightarrow> j < length arr \<Longrightarrow> mset (swap arr i j) = mset arr"
  by (simp add: swap_def mset_swap)

lemma nth_swap: "i < length arr \<Longrightarrow> j < length arr \<Longrightarrow>
  swap arr i j ! k = (if k = j then arr ! i else if k = i then arr ! j else arr ! k)"
  by (simp add: swap_def nth_list_update)

lemma length_sl: "h \<le> length xs \<Longrightarrow> length (sl xs l h) = h - l"
  by (simp add: sl_def)

lemma sl_empty [simp]: "h \<le> l \<Longrightarrow> sl xs l h = []"
  by (simp add: sl_def)

lemma sl_whole [simp]: "sl xs 0 (length xs) = xs"
  by (simp add: sl_def)

lemma nth_sl: "l + k < h \<Longrightarrow> h \<le> length xs \<Longrightarrow> sl xs l h ! k = xs ! (l + k)"
  by (simp add: sl_def)

lemma sl_split: "l \<le> h \<Longrightarrow> take l xs @ sl xs l h @ drop h xs = xs"
proof -
  assume lh: "l \<le> h"
  have e: "drop (h - l) (drop l xs) = drop h xs"
    using lh by simp
  have "take l xs @ (take (h - l) (drop l xs) @ drop (h - l) (drop l xs)) = xs"
    by (simp only: append_take_drop_id)
  then show ?thesis unfolding sl_def e .
qed

lemma sl_append: "l \<le> p \<Longrightarrow> p \<le> h \<Longrightarrow> sl xs l h = sl xs l p @ sl xs p h"
proof -
  assume a: "l \<le> p" "p \<le> h"
  have "take (h - l) (drop l xs) = take (p - l) (drop l xs) @ take (h - p) (drop (p - l) (drop l xs))"
    using a take_add[of "p - l" "h - p" "drop l xs"] by simp
  then show ?thesis using a by (simp add: sl_def)
qed

lemma sl_single: "p < length xs \<Longrightarrow> sl xs p (Suc p) = [xs ! p]"
  by (simp add: sl_def take_Suc_conv_app_nth)

lemma sl_pivot: "l \<le> p \<Longrightarrow> p < h \<Longrightarrow> h \<le> length xs \<Longrightarrow>
  sl xs l h = sl xs l p @ [xs ! p] @ sl xs (Suc p) h"
  using sl_append[of l p h xs] sl_append[of p "Suc p" h xs] sl_single[of p xs] by simp

lemma set_sl: "h \<le> length xs \<Longrightarrow> set (sl xs l h) = {xs ! k | k. l \<le> k \<and> k < h}"
proof (cases "l \<le> h")
  case False
  then show ?thesis by auto
next
  case True
  assume h: "h \<le> length xs"
  show ?thesis
  proof (intro set_eqI iffI)
    fix x assume "x \<in> set (sl xs l h)"
    then obtain k where "k < h - l" "x = sl xs l h ! k"
      using h by (auto simp: in_set_conv_nth length_sl)
    then show "x \<in> {xs ! k | k. l \<le> k \<and> k < h}"
      using h by (auto simp: nth_sl intro!: exI[of _ "l + k"])
  next
    fix x assume "x \<in> {xs ! k | k. l \<le> k \<and> k < h}"
    then obtain k where k: "l \<le> k" "k < h" "x = xs ! k" by auto
    then have "sl xs l h ! (k - l) = x" using h by (simp add: nth_sl)
    moreover have "k - l < length (sl xs l h)" using k h by (simp add: length_sl)
    ultimately show "x \<in> set (sl xs l h)" by (metis nth_mem)
  qed
qed

lemma sl_frame: "\<forall>k. l \<le> k \<and> k < h \<longrightarrow> r ! k = a ! k \<Longrightarrow> h \<le> length r \<Longrightarrow> h \<le> length a \<Longrightarrow>
  sl r l h = sl a l h"
  by (rule nth_equalityI) (auto simp: length_sl nth_sl)

lemma take_frame: "\<forall>k. k < l \<longrightarrow> r ! k = a ! k \<Longrightarrow> l \<le> length r \<Longrightarrow> l \<le> length a \<Longrightarrow> take l r = take l a"
  by (rule nth_equalityI) auto

lemma drop_frame: "\<forall>k. h \<le> k \<longrightarrow> r ! k = a ! k \<Longrightarrow> length r = length a \<Longrightarrow> drop h r = drop h a"
  by (rule nth_equalityI) auto

lemma mset_sl_frame:
  assumes "length r = length a" "mset r = mset a" "\<forall>k. k < l \<or> h \<le> k \<longrightarrow> r ! k = a ! k"
    "l \<le> h" "h \<le> length a"
  shows "mset (sl r l h) = mset (sl a l h)"
proof -
  have t: "take l r = take l a" using assms by (intro take_frame) auto
  have d: "drop h r = drop h a" using assms by (intro drop_frame) auto
  have "mset (take l r @ sl r l h @ drop h r) = mset (take l a @ sl a l h @ drop h a)"
    using assms(2,4) by (simp only: sl_split)
  then show ?thesis using t d by simp
qed

lemma alloc_all_succeed: "all_succeed h \<Longrightarrow> fst (alloc h) \<and> all_succeed (snd (alloc h))"
  by (cases h) (auto simp: all_succeed_def)

lemma all_succeed_Nil [simp]: "all_succeed []"
  by (simp add: all_succeed_def)

section \<open>In-place quicksort: the partition and the sort\<close>

lemma partition_loop_inv:
  assumes "low \<le> i" "i \<le> j" "j \<le> high" "high < length arr"
    and "\<forall>k. low \<le> k \<and> k < i \<longrightarrow> arr ! k \<le> pivot"
    and "\<forall>k. i \<le> k \<and> k < j \<longrightarrow> pivot < arr ! k"
    and "partition_loop arr pivot i j high = (arr', i')"
  shows "length arr' = length arr \<and> mset arr' = mset arr \<and> i \<le> i' \<and> i' \<le> high
       \<and> (\<forall>k. low \<le> k \<and> k < i' \<longrightarrow> arr' ! k \<le> pivot)
       \<and> (\<forall>k. i' \<le> k \<and> k < high \<longrightarrow> pivot < arr' ! k)
       \<and> (\<forall>k. k < low \<or> high \<le> k \<longrightarrow> arr' ! k = arr ! k)"
  using assms
proof (induction arr pivot i j high rule: partition_loop.induct)
  case (1 arr pivot i j high)
  show ?case
  proof (cases "j < high")
    case False
    with "1.prems" show ?thesis
      by (simp add: partition_loop_stop)
  next
    case jh: True
    show ?thesis
    proof (cases "arr ! j \<le> pivot")
      case True
      have eq: "partition_loop (swap arr i j) pivot (i + 1) (j + 1) high = (arr', i')"
        using "1.prems"(7) jh True by (simp add: partition_loop_le)
      have ij: "i < length arr" "j < length arr" using "1.prems" jh by auto
      have a: "\<forall>k. low \<le> k \<and> k < i + 1 \<longrightarrow> swap arr i j ! k \<le> pivot"
        using "1.prems" True ij by (auto simp: nth_swap less_Suc_eq)
      have b: "\<forall>k. i + 1 \<le> k \<and> k < j + 1 \<longrightarrow> pivot < swap arr i j ! k"
        using "1.prems" True ij by (auto simp: nth_swap less_Suc_eq)
      have "length arr' = length (swap arr i j) \<and> mset arr' = mset (swap arr i j) \<and> i + 1 \<le> i' \<and> i' \<le> high
       \<and> (\<forall>k. low \<le> k \<and> k < i' \<longrightarrow> arr' ! k \<le> pivot)
       \<and> (\<forall>k. i' \<le> k \<and> k < high \<longrightarrow> pivot < arr' ! k)
       \<and> (\<forall>k. k < low \<or> high \<le> k \<longrightarrow> arr' ! k = swap arr i j ! k)"
        using "1.IH"(1)[OF jh True _ _ _ _ a b eq] "1.prems" jh by simp
      moreover have "\<forall>k. k < low \<or> high \<le> k \<longrightarrow> swap arr i j ! k = arr ! k"
        using "1.prems" jh ij by (auto simp: nth_swap)
      ultimately show ?thesis using ij by simp
    next
      case False
      have eq: "partition_loop arr pivot i (j + 1) high = (arr', i')"
        using "1.prems"(7) jh False by (simp add: partition_loop_gt)
      have b: "\<forall>k. i \<le> k \<and> k < j + 1 \<longrightarrow> pivot < arr ! k"
        using "1.prems" False by (auto simp: less_Suc_eq)
      show ?thesis
        using "1.IH"(2)[OF jh False _ _ _ _ _ b eq] "1.prems" jh by simp
    qed
  qed
qed

lemma partition_arr_post:
  assumes "low \<le> high" "high < length arr" "partition_arr arr low high = (arr', i)"
  shows "length arr' = length arr \<and> mset arr' = mset arr \<and> low \<le> i \<and> i \<le> high
       \<and> arr' ! i = arr ! high
       \<and> (\<forall>k. low \<le> k \<and> k < i \<longrightarrow> arr' ! k \<le> arr' ! i)
       \<and> (\<forall>k. i < k \<and> k \<le> high \<longrightarrow> arr' ! i < arr' ! k)
       \<and> (\<forall>k. k < low \<or> high < k \<longrightarrow> arr' ! k = arr ! k)"
proof -
  obtain a1 where pl: "partition_loop arr (arr ! high) low low high = (a1, i)"
    and a': "arr' = swap a1 i high"
    using assms(3) by (auto simp: partition_arr_def Let_def split: prod.splits)
  have inv: "length a1 = length arr \<and> mset a1 = mset arr \<and> low \<le> i \<and> i \<le> high
       \<and> (\<forall>k. low \<le> k \<and> k < i \<longrightarrow> a1 ! k \<le> arr ! high)
       \<and> (\<forall>k. i \<le> k \<and> k < high \<longrightarrow> arr ! high < a1 ! k)
       \<and> (\<forall>k. k < low \<or> high \<le> k \<longrightarrow> a1 ! k = arr ! k)"
    using partition_loop_inv[where low=low, OF _ _ assms(1,2) _ _ pl] by simp
  then have ih: "i < length a1" "high < length a1" using assms by auto
  show ?thesis
    using inv ih assms(1,2) unfolding a'
    by (auto simp: nth_swap)
qed

lemma quicksort_range_correct:
  "high < length arr \<Longrightarrow>
     length (quicksort_range arr low high) = length arr \<and>
     mset (quicksort_range arr low high) = mset arr \<and>
     (\<forall>k. k < low \<or> high < k \<longrightarrow> quicksort_range arr low high ! k = arr ! k) \<and>
     sorted (sl (quicksort_range arr low high) low (Suc high))"
proof (induction arr low high rule: quicksort_range.induct)
  case (1 arr low high)
  show ?case
  proof (cases "low < high")
    case False
    then have "sl arr low (Suc high) = [] \<or> sl arr low (Suc high) = [arr ! low]"
      using "1.prems" sl_single[of low arr] by (cases "low = high") auto
    then show ?thesis using False by (subst (1 2 3 4) quicksort_range.simps) auto
  next
    case lh: True
    obtain arr1 p where part: "partition_arr arr low high = (arr1, p)"
      by (cases "partition_arr arr low high")
    note post = partition_arr_post[OF _ "1.prems" part]
    have p: "low \<le> p" "p \<le> high" and len1: "length arr1 = length arr" and ms1: "mset arr1 = mset arr"
      and fr1: "\<forall>k. k < low \<or> high < k \<longrightarrow> arr1 ! k = arr ! k"
      and le1: "\<forall>k. low \<le> k \<and> k < p \<longrightarrow> arr1 ! k \<le> arr1 ! p"
      and gt1: "\<forall>k. p < k \<and> k \<le> high \<longrightarrow> arr1 ! p < arr1 ! k"
      using post lh by auto
    define arr2 where "arr2 = (if p > 0 then quicksort_range arr1 low (p - 1) else arr1)"
    define arr3 where "arr3 = (if p + 1 \<le> high then quicksort_range arr2 (p + 1) high else arr2)"
    have res: "quicksort_range arr low high = arr3"
      using lh part by (subst quicksort_range.simps) (simp add: arr2_def arr3_def Let_def)
    have A2: "length arr2 = length arr1 \<and> mset arr2 = mset arr1 \<and>
      (\<forall>k. k < low \<or> p \<le> k \<longrightarrow> arr2 ! k = arr1 ! k) \<and> sorted (sl arr2 low p)"
    proof (cases "p > 0")
      case True
      have "p - 1 < length arr1" using p "1.prems" len1 by simp
      from "1.IH"(1)[OF lh part[symmetric] True this] True show ?thesis
        by (auto simp: arr2_def)
    next
      case False
      then show ?thesis using p by (simp add: arr2_def)
    qed
    have A3: "length arr3 = length arr2 \<and> mset arr3 = mset arr2 \<and>
      (\<forall>k. k < p + 1 \<or> high < k \<longrightarrow> arr3 ! k = arr2 ! k) \<and> sorted (sl arr3 (p + 1) (Suc high))"
    proof (cases "p + 1 \<le> high")
      case True
      have "high < length arr2" using A2 len1 "1.prems" by simp
      from "1.IH"(2)[OF lh part[symmetric] arr2_def True this] True show ?thesis
        by (auto simp: arr3_def)
    next
      case False
      then show ?thesis by (simp add: arr3_def)
    qed
    have len3: "length arr3 = length arr" using A2 A3 len1 by simp
    have hl: "Suc high \<le> length arr" using "1.prems" by simp
    have L: "sl arr3 low p = sl arr2 low p"
      using A3 A2 len1 p hl by (intro sl_frame) auto
    have Lm: "mset (sl arr2 low p) = mset (sl arr1 low p)"
      using A2 p hl len1 by (intro mset_sl_frame) auto
    have Rm: "mset (sl arr3 (p + 1) (Suc high)) = mset (sl arr2 (p + 1) (Suc high))"
      using A3 p hl len1 A2 by (intro mset_sl_frame) auto
    have R2: "sl arr2 (p + 1) (Suc high) = sl arr1 (p + 1) (Suc high)"
      using A2 len1 p hl by (intro sl_frame) auto
    have piv: "arr3 ! p = arr1 ! p" using A3 A2 by simp
    have Ls: "\<forall>x\<in>set (sl arr3 low p). x \<le> arr1 ! p"
    proof -
      have "set (sl arr3 low p) = set (sl arr1 low p)"
        using L Lm by (metis set_mset_mset)
      then show ?thesis using le1 p hl len1 by (auto simp: set_sl)
    qed
    have Rs: "\<forall>x\<in>set (sl arr3 (p + 1) (Suc high)). arr1 ! p < x"
    proof -
      have "set (sl arr3 (p + 1) (Suc high)) = set (sl arr1 (p + 1) (Suc high))"
        using R2 Rm by (metis set_mset_mset)
      then show ?thesis using gt1 p hl len1 by (auto simp: set_sl)
    qed
    have dec: "sl arr3 low (Suc high) = sl arr3 low p @ [arr3 ! p] @ sl arr3 (Suc p) (Suc high)"
      using p hl len3 by (intro sl_pivot) auto
    have LR: "\<forall>x\<in>set (sl arr3 low p). \<forall>y\<in>set (sl arr3 (Suc p) (Suc high)). x \<le> y"
      using Ls Rs by fastforce
    have "sorted (sl arr3 low (Suc high))"
      unfolding dec using L A2 A3 Ls Rs piv LR
      by (simp add: sorted_append less_imp_le)
    moreover have "\<forall>k. k < low \<or> high < k \<longrightarrow> arr3 ! k = arr ! k"
      using A3 A2 fr1 p by auto
    ultimately show ?thesis unfolding res using len3 A2 A3 ms1 by simp
  qed
qed

lemma quicksort_inplace_sorted: "sorted (quicksort_inplace arr (length arr))"
proof (cases "length arr > 1")
  case True
  then have "sorted (sl (quicksort_range arr 0 (length arr - 1)) 0 (Suc (length arr - 1)))"
    using quicksort_range_correct[of "length arr - 1" arr 0] by simp
  moreover have "length (quicksort_range arr 0 (length arr - 1)) = length arr"
    using quicksort_range_correct[of "length arr - 1" arr 0] True by simp
  moreover have "Suc (length arr - 1) = length arr" using True by simp
  ultimately show ?thesis using True sl_whole[of "quicksort_range arr 0 (length arr - 1)"]
    by (simp add: quicksort_inplace_def)
next
  case False
  then have "arr = [] \<or> (\<exists>x. arr = [x])" by (cases arr) auto
  then show ?thesis using False by (auto simp: quicksort_inplace_def)
qed

lemma quicksort_inplace_mset: "mset (quicksort_inplace arr (length arr)) = mset arr"
  using quicksort_range_correct[of "length arr - 1" arr 0]
  by (auto simp: quicksort_inplace_def)

section \<open>Three-way quicksort and heap sort permute the array\<close>

lemma three_way_loop_mset_aux:
  "three_way_loop s = (arr', lt', gt') \<Longrightarrow> s = (arr, pivot, lt, i, gt) \<Longrightarrow> lt < i \<Longrightarrow> int i \<le> gt + 1 \<Longrightarrow>
     gt < int (length arr) \<Longrightarrow> length arr' = length arr \<and> mset arr' = mset arr"
proof (induction s arbitrary: arr pivot lt i gt rule: three_way_loop.induct)
  case (1 arr0 pivot0 lt0 i0 gt0)
  have eqs: "arr0 = arr" "pivot0 = pivot" "lt0 = lt" "i0 = i" "gt0 = gt"
    using "1.prems"(2) by simp_all
  show ?case
  proof (cases "int i \<le> gt")
    case False
    with "1.prems" show ?thesis unfolding eqs by (simp add: three_way_loop_unfold)
  next
    case True
    obtain a2 p2 l2 i2 g2 where st: "three_way_step (arr, pivot, lt, i, gt) = (a2, p2, l2, i2, g2)"
      by (cases "three_way_step (arr, pivot, lt, i, gt)") auto
    have loop: "three_way_loop (three_way_step (arr, pivot, lt, i, gt)) = (arr', lt', gt')"
      using "1.prems"(1) True unfolding eqs by (simp add: three_way_loop_unfold)
    have idx: "i < length arr" "lt < length arr" "nat gt < length arr"
      using True "1.prems"(3,5) by auto
    have b: "l2 < i2" "int i2 \<le> g2 + 1" "g2 < int (length a2)" "length a2 = length arr" "mset a2 = mset arr"
      using st "1.prems"(3,4,5) True idx by (auto split: if_splits)
    from "1.IH"[unfolded eqs, OF True loop st b(1,2,3)] b show ?thesis by simp
  qed
qed

lemma three_way_loop_mset:
  "three_way_loop (arr, pivot, lt, i, gt) = (arr', lt', gt') \<Longrightarrow> lt < i \<Longrightarrow> int i \<le> gt + 1 \<Longrightarrow>
     gt < int (length arr) \<Longrightarrow> length arr' = length arr \<and> mset arr' = mset arr"
  by (rule three_way_loop_mset_aux[OF _ refl])

lemma three_way_partition_sort_mset:
  "high < length arr \<Longrightarrow>
     length (three_way_partition_sort arr low high) = length arr \<and>
     mset (three_way_partition_sort arr low high) = mset arr"
proof (induction arr low high rule: three_way_partition_sort.induct)
  case (1 arr low high)
  show ?case
  proof (cases "low \<ge> high")
    case True
    then show ?thesis by (subst (1 2) three_way_partition_sort.simps) simp
  next
    case False
    obtain arr1 lt gt where lp: "three_way_loop (arr, arr ! low, low, low + 1, int high) = (arr1, lt, gt)"
      by (cases "three_way_loop (arr, arr ! low, low, low + 1, int high)") auto
    have bnd: "low \<le> lt \<and> int lt \<le> gt \<and> int low \<le> gt \<and> gt \<le> int high"
      using three_way_loop_bounds[OF lp] False by auto
    have m1: "length arr1 = length arr \<and> mset arr1 = mset arr"
      using three_way_loop_mset[OF lp] False "1.prems" by auto
    define arr2 where "arr2 = (if lt > 0 then three_way_partition_sort arr1 low (lt - 1) else arr1)"
    have res: "three_way_partition_sort arr low high = three_way_partition_sort arr2 (nat (gt + 1)) high"
      using False lp by (subst three_way_partition_sort.simps) (simp add: arr2_def Let_def)
    have m2: "length arr2 = length arr1 \<and> mset arr2 = mset arr1"
    proof (cases "lt > 0")
      case True
      have "lt - 1 < length arr1" using bnd m1 "1.prems" by auto
      from "1.IH"(1)[OF False lp[symmetric] refl True this] True show ?thesis
        by (simp add: arr2_def)
    next
      case False
      then show ?thesis by (simp add: arr2_def)
    qed
    have "high < length arr2" using m1 m2 "1.prems" by simp
    from "1.IH"(2)[OF False lp[symmetric] refl arr2_def this] m1 m2 show ?thesis
      unfolding res by simp
  qed
qed

lemma quicksort_three_way_mset: "mset (quicksort_three_way arr (length arr)) = mset arr"
  using three_way_partition_sort_mset[of "length arr - 1" arr 0]
  by (auto simp: quicksort_three_way_def)

lemma heapify_mset:
  "i < heap_size \<Longrightarrow> heap_size \<le> length arr \<Longrightarrow>
     length (heapify arr heap_size i) = length arr \<and> mset (heapify arr heap_size i) = mset arr"
proof (induction arr heap_size i rule: heapify.induct)
  case (1 arr heap_size i)
  define left where "left = 2 * i + 1"
  define right where "right = 2 * i + 2"
  define l1 where "l1 = (if left < heap_size \<and> arr ! left > arr ! i then left else i)"
  define largest where "largest = (if right < heap_size \<and> arr ! right > arr ! l1 then right else l1)"
  have unf: "heapify arr heap_size i =
      (if largest \<noteq> i then heapify (swap arr i largest) heap_size largest else arr)"
    by (subst heapify.simps) (simp add: Let_def left_def right_def l1_def largest_def)
  show ?case
  proof (cases "largest \<noteq> i")
    case False
    then show ?thesis by (simp add: unf)
  next
    case True
    have lh: "largest < heap_size" using "1.prems" by (auto simp: largest_def l1_def)
    have sw: "length (swap arr i largest) = length arr" "mset (swap arr i largest) = mset arr"
      using lh "1.prems" by auto
    have "length (heapify (swap arr i largest) heap_size largest) = length (swap arr i largest) \<and>
          mset (heapify (swap arr i largest) heap_size largest) = mset (swap arr i largest)"
      using "1.IH"[OF left_def right_def l1_def largest_def True lh] "1.prems" by simp
    then show ?thesis using True sw by (simp add: unf)
  qed
qed

lemma build_max_heap_loop_mset:
  "i < int sz \<Longrightarrow> sz \<le> length arr \<Longrightarrow>
     length (build_max_heap_loop arr sz i) = length arr \<and> mset (build_max_heap_loop arr sz i) = mset arr"
proof (induction arr sz i rule: build_max_heap_loop.induct)
  case (1 arr sz i)
  show ?case
  proof (cases "i \<ge> 0")
    case False
    then show ?thesis by (subst (1 2) build_max_heap_loop.simps) simp
  next
    case True
    have h: "length (heapify arr sz (nat i)) = length arr \<and> mset (heapify arr sz (nat i)) = mset arr"
      using True "1.prems" by (intro heapify_mset) auto
    have "length (build_max_heap_loop (heapify arr sz (nat i)) sz (i - 1)) = length (heapify arr sz (nat i)) \<and>
          mset (build_max_heap_loop (heapify arr sz (nat i)) sz (i - 1)) = mset (heapify arr sz (nat i))"
      using "1.IH"[OF True] "1.prems" h by simp
    then show ?thesis using True h by (subst (1 2) build_max_heap_loop.simps) simp
  qed
qed

lemma heap_sort_loop_mset:
  "i < length arr \<Longrightarrow>
     length (heap_sort_loop arr i) = length arr \<and> mset (heap_sort_loop arr i) = mset arr"
proof (induction arr i rule: heap_sort_loop.induct)
  case (1 arr i)
  show ?case
  proof (cases "i > 0")
    case False
    then show ?thesis by (subst (1 2) heap_sort_loop.simps) simp
  next
    case True
    have "0 < length arr" using "1.prems" by (cases arr) auto
    then have s: "length (swap arr 0 i) = length arr" "mset (swap arr 0 i) = mset arr"
      using "1.prems" by simp_all
    have h: "length (heapify (swap arr 0 i) i 0) = length arr \<and> mset (heapify (swap arr 0 i) i 0) = mset arr"
      using heapify_mset[of 0 i "swap arr 0 i"] True "1.prems" s by simp
    have "length (heap_sort_loop (heapify (swap arr 0 i) i 0) (i - 1)) = length (heapify (swap arr 0 i) i 0) \<and>
          mset (heap_sort_loop (heapify (swap arr 0 i) i 0) (i - 1)) = mset (heapify (swap arr 0 i) i 0)"
      using "1.IH"[OF True] "1.prems" h by simp
    then show ?thesis using True h by (subst (1 2) heap_sort_loop.simps) simp
  qed
qed

lemma heap_sort_mset: "mset (heap_sort arr (length arr)) = mset arr"
proof (cases "length arr \<le> 1")
  case True
  then show ?thesis by (simp add: heap_sort_def)
next
  case False
  have b: "length (build_max_heap arr (length arr)) = length arr \<and> mset (build_max_heap arr (length arr)) = mset arr"
    unfolding build_max_heap_def Let_def using False
    by (intro build_max_heap_loop_mset) auto
  then have "mset (heap_sort_loop (build_max_heap arr (length arr)) (length arr - 1)) = mset arr"
    using heap_sort_loop_mset[of "length arr - 1" "build_max_heap arr (length arr)"] False by simp
  then show ?thesis using False by (simp add: heap_sort_def)
qed

section \<open>Three-way quicksort sorts\<close>

text \<open>
  The invariant of the partition loop, for the range \<open>low..high\<close> of an array that was
  \<open>arr0\<close> when the loop started: the cells \<open>low..lt-1\<close> are below the pivot, the cells
  \<open>lt..i-1\<close> equal it, the cells \<open>gt+1..high\<close> are above it.
\<close>

definition three_way_inv :: "int list \<Rightarrow> nat \<Rightarrow> nat \<Rightarrow> int list \<times> int \<times> nat \<times> nat \<times> int \<Rightarrow> bool" where
  "three_way_inv arr0 low high s =
     (case s of (arr, pivot, lt, i, gt) \<Rightarrow>
        length arr = length arr0 \<and> mset arr = mset arr0
        \<and> (\<forall>k. k < low \<or> high < k \<longrightarrow> arr ! k = arr0 ! k)
        \<and> low \<le> lt \<and> lt < i \<and> int i \<le> gt + 1 \<and> gt \<le> int high \<and> high < length arr
        \<and> (\<forall>k. low \<le> k \<and> k < lt \<longrightarrow> arr ! k < pivot)
        \<and> (\<forall>k. lt \<le> k \<and> k < i \<longrightarrow> arr ! k = pivot)
        \<and> (\<forall>k. gt < int k \<and> k \<le> high \<longrightarrow> pivot < arr ! k))"

lemma three_way_step_inv:
  assumes "three_way_inv arr0 low high (arr, pivot, lt, i, gt)" and "int i \<le> gt"
  shows "three_way_inv arr0 low high (three_way_step (arr, pivot, lt, i, gt))
       \<and> fst (snd (three_way_step (arr, pivot, lt, i, gt))) = pivot"
proof -
  from assms have len: "length arr = length arr0" and ms: "mset arr = mset arr0"
    and fr: "\<forall>k. k < low \<or> high < k \<longrightarrow> arr ! k = arr0 ! k"
    and b: "low \<le> lt" "lt < i" "int i \<le> gt" "gt \<le> int high" "high < length arr"
    and lo: "\<forall>k. low \<le> k \<and> k < lt \<longrightarrow> arr ! k < pivot"
    and eq: "\<forall>k. lt \<le> k \<and> k < i \<longrightarrow> arr ! k = pivot"
    and hi: "\<forall>k. gt < int k \<and> k \<le> high \<longrightarrow> pivot < arr ! k"
    by (simp_all add: three_way_inv_def)
  have idx: "i < length arr" "lt < length arr" "nat gt < length arr" using b by auto
  consider (less) "arr ! i < pivot" | (greater) "\<not> arr ! i < pivot" "arr ! i > pivot"
    | (equal) "arr ! i = pivot" by linarith
  then show ?thesis
  proof cases
    case less
    have st: "three_way_step (arr, pivot, lt, i, gt) = (swap arr i lt, pivot, lt + 1, i + 1, gt)"
      using less by simp
    have ltp: "arr ! lt = pivot" using eq b by simp
    have "\<forall>k. k < low \<or> high < k \<longrightarrow> swap arr i lt ! k = arr0 ! k"
      using fr b idx by (auto simp: nth_swap)
    moreover have "\<forall>k. low \<le> k \<and> k < lt + 1 \<longrightarrow> swap arr i lt ! k < pivot"
      using lo less b idx by (auto simp: nth_swap)
    moreover have "\<forall>k. lt + 1 \<le> k \<and> k < i + 1 \<longrightarrow> swap arr i lt ! k = pivot"
      using eq ltp b idx by (auto simp: nth_swap)
    moreover have "\<forall>k. gt < int k \<and> k \<le> high \<longrightarrow> pivot < swap arr i lt ! k"
      using hi b idx by (auto simp: nth_swap)
    ultimately show ?thesis
      unfolding st using len ms b idx by (simp add: three_way_inv_def)
  next
    case greater
    have st: "three_way_step (arr, pivot, lt, i, gt) = (swap arr i (nat gt), pivot, lt, i, gt - 1)"
      using greater by simp
    have "\<forall>k. k < low \<or> high < k \<longrightarrow> swap arr i (nat gt) ! k = arr0 ! k"
      using fr b idx by (auto simp: nth_swap)
    moreover have "\<forall>k. low \<le> k \<and> k < lt \<longrightarrow> swap arr i (nat gt) ! k < pivot"
      using lo b idx by (auto simp: nth_swap)
    moreover have "\<forall>k. lt \<le> k \<and> k < i \<longrightarrow> swap arr i (nat gt) ! k = pivot"
      using eq b idx by (auto simp: nth_swap)
    moreover have "\<forall>k. gt - 1 < int k \<and> k \<le> high \<longrightarrow> pivot < swap arr i (nat gt) ! k"
    proof (intro allI impI)
      fix k assume k: "gt - 1 < int k \<and> k \<le> high"
      show "pivot < swap arr i (nat gt) ! k"
      proof (cases "k = nat gt")
        case True
        then show ?thesis using greater(2) idx by (simp add: nth_swap)
      next
        case False
        then have g: "gt < int k" using k b by linarith
        then have "k \<noteq> i" using b by linarith
        then show ?thesis using hi g k False idx by (simp add: nth_swap)
      qed
    qed
    ultimately show ?thesis
      unfolding st using len ms b idx by (simp add: three_way_inv_def)
  next
    case equal
    have st: "three_way_step (arr, pivot, lt, i, gt) = (arr, pivot, lt, i + 1, gt)"
      using equal by simp
    have "\<forall>k. lt \<le> k \<and> k < i + 1 \<longrightarrow> arr ! k = pivot"
      using eq equal by (auto simp: less_Suc_eq)
    then show ?thesis
      unfolding st using len ms fr b lo hi by (simp add: three_way_inv_def)
  qed
qed

lemma three_way_loop_post:
  "three_way_loop s = (arr', lt', gt') \<Longrightarrow> three_way_inv arr0 low high s \<Longrightarrow>
     length arr' = length arr0 \<and> mset arr' = mset arr0
     \<and> (\<forall>k. k < low \<or> high < k \<longrightarrow> arr' ! k = arr0 ! k)
     \<and> low \<le> lt' \<and> int lt' \<le> gt' \<and> gt' \<le> int high
     \<and> (\<forall>k. low \<le> k \<and> k < lt' \<longrightarrow> arr' ! k < fst (snd s))
     \<and> (\<forall>k. lt' \<le> k \<and> int k \<le> gt' \<longrightarrow> arr' ! k = fst (snd s))
     \<and> (\<forall>k. gt' < int k \<and> k \<le> high \<longrightarrow> fst (snd s) < arr' ! k)"
proof (induction s rule: three_way_loop.induct)
  case (1 arr pivot lt i gt)
  show ?case
  proof (cases "int i \<le> gt")
    case False
    then have e: "arr' = arr" "lt' = lt" "gt' = gt"
      using "1.prems"(1) by (simp_all add: three_way_loop_unfold)
    have "int i = gt + 1" using False "1.prems"(2) by (simp add: three_way_inv_def)
    then have "\<forall>k. (lt \<le> k \<and> int k \<le> gt) = (lt \<le> k \<and> k < i)" by auto
    then show ?thesis using "1.prems"(2) unfolding e by (simp add: three_way_inv_def)
  next
    case True
    have loop: "three_way_loop (three_way_step (arr, pivot, lt, i, gt)) = (arr', lt', gt')"
      using "1.prems"(1) True by (simp add: three_way_loop_unfold)
    note st = three_way_step_inv[OF "1.prems"(2) True]
    from "1.IH"[OF True loop conjunct1[OF st]] conjunct2[OF st] show ?thesis by simp
  qed
qed

lemma sorted_const: "\<forall>x\<in>set xs. x = (c :: int) \<Longrightarrow> sorted xs"
  by (induction xs) auto

lemma three_way_partition_sort_correct:
  "high < length arr \<Longrightarrow>
     length (three_way_partition_sort arr low high) = length arr \<and>
     mset (three_way_partition_sort arr low high) = mset arr \<and>
     (\<forall>k. k < low \<or> high < k \<longrightarrow> three_way_partition_sort arr low high ! k = arr ! k) \<and>
     sorted (sl (three_way_partition_sort arr low high) low (Suc high))"
proof (induction arr low high rule: three_way_partition_sort.induct)
  case (1 arr low high)
  show ?case
  proof (cases "low \<ge> high")
    case True
    then have "sl arr low (Suc high) = [] \<or> sl arr low (Suc high) = [arr ! low]"
      using "1.prems" sl_single[of low arr] by (cases "low = high") auto
    then show ?thesis using True by (subst (1 2 3 4) three_way_partition_sort.simps) auto
  next
    case False
    then have lh: "low < high" by simp
    obtain arr1 lt gt where lp: "three_way_loop (arr, arr ! low, low, low + 1, int high) = (arr1, lt, gt)"
      by (cases "three_way_loop (arr, arr ! low, low, low + 1, int high)") auto
    have inv0: "three_way_inv arr low high (arr, arr ! low, low, low + 1, int high)"
      using lh "1.prems" by (auto simp: three_way_inv_def less_Suc_eq)
    define pv where "pv = arr ! low"
    from three_way_loop_post[OF lp inv0]
    have len1: "length arr1 = length arr" and ms1: "mset arr1 = mset arr"
      and fr1: "\<forall>k. k < low \<or> high < k \<longrightarrow> arr1 ! k = arr ! k"
      and bnd: "low \<le> lt" "int lt \<le> gt" "gt \<le> int high"
      and lo1: "\<forall>k. low \<le> k \<and> k < lt \<longrightarrow> arr1 ! k < pv"
      and eq1: "\<forall>k. lt \<le> k \<and> int k \<le> gt \<longrightarrow> arr1 ! k = pv"
      and hi1: "\<forall>k. gt < int k \<and> k \<le> high \<longrightarrow> pv < arr1 ! k"
      by (simp_all add: pv_def)
    define g where "g = nat (gt + 1)"
    have g: "lt < g" "g \<le> Suc high" "int g = gt + 1" using bnd by (simp_all add: g_def)
    have eq1': "\<forall>k. lt \<le> k \<and> k < g \<longrightarrow> arr1 ! k = pv" using eq1 g by auto
    have hi1': "\<forall>k. g \<le> k \<and> k \<le> high \<longrightarrow> pv < arr1 ! k" using hi1 g by auto
    define arr2 where "arr2 = (if lt > 0 then three_way_partition_sort arr1 low (lt - 1) else arr1)"
    define arr3 where "arr3 = three_way_partition_sort arr2 g high"
    have res: "three_way_partition_sort arr low high = arr3"
      using False lp by (subst three_way_partition_sort.simps) (simp add: arr2_def arr3_def g_def Let_def)
    have hl: "Suc high \<le> length arr" using "1.prems" by simp
    have A2: "length arr2 = length arr1 \<and> mset arr2 = mset arr1 \<and>
      (\<forall>k. k < low \<or> lt \<le> k \<longrightarrow> arr2 ! k = arr1 ! k) \<and> sorted (sl arr2 low lt)"
    proof (cases "lt > 0")
      case True
      have "lt - 1 < length arr1" using g hl len1 by simp
      from "1.IH"(1)[OF False lp[symmetric] refl True this] True show ?thesis
        by (auto simp: arr2_def)
    next
      case False
      then show ?thesis by (simp add: arr2_def)
    qed
    have h2: "high < length arr2" using A2 len1 "1.prems" by simp
    have A3: "length arr3 = length arr2 \<and> mset arr3 = mset arr2 \<and>
      (\<forall>k. k < g \<or> high < k \<longrightarrow> arr3 ! k = arr2 ! k) \<and> sorted (sl arr3 g (Suc high))"
      using "1.IH"(2)[OF False lp[symmetric] refl arr2_def h2] by (simp add: arr3_def g_def)
    have len3: "length arr3 = length arr" using A2 A3 len1 by simp
    have L: "sl arr3 low lt = sl arr2 low lt"
      using A3 A2 len1 g hl by (intro sl_frame) auto
    have Lm: "mset (sl arr2 low lt) = mset (sl arr1 low lt)"
      using A2 bnd g hl len1 by (intro mset_sl_frame) auto
    have M: "sl arr3 lt g = sl arr1 lt g"
      using A3 A2 len1 g hl by (intro sl_frame) auto
    have Rm: "mset (sl arr3 g (Suc high)) = mset (sl arr2 g (Suc high))"
      using A3 g hl len1 A2 by (intro mset_sl_frame) auto
    have R2: "sl arr2 g (Suc high) = sl arr1 g (Suc high)"
      using A2 len1 g hl by (intro sl_frame) auto
    have Ls: "\<forall>x\<in>set (sl arr3 low lt). x < pv"
    proof -
      have "set (sl arr3 low lt) = set (sl arr1 low lt)"
        using L Lm by (metis set_mset_mset)
      then show ?thesis using lo1 g hl len1 by (auto simp: set_sl)
    qed
    have Ms: "\<forall>x\<in>set (sl arr3 lt g). x = pv"
      unfolding M using eq1' g hl len1 by (auto simp: set_sl)
    have Rs: "\<forall>x\<in>set (sl arr3 g (Suc high)). pv < x"
    proof -
      have "set (sl arr3 g (Suc high)) = set (sl arr1 g (Suc high))"
        using R2 Rm by (metis set_mset_mset)
      then show ?thesis using hi1' g hl len1 by (auto simp: set_sl)
    qed
    have dec: "sl arr3 low (Suc high) = sl arr3 low lt @ sl arr3 lt g @ sl arr3 g (Suc high)"
      using sl_append[of low lt "Suc high" arr3] sl_append[of lt g "Suc high" arr3] bnd g by simp
    have "sorted (sl arr3 low (Suc high))"
      unfolding dec using L A2 A3 Ls Rs Ms sorted_const[OF Ms]
      by (fastforce simp: sorted_append)
    moreover have "\<forall>k. k < low \<or> high < k \<longrightarrow> arr3 ! k = arr ! k"
      using A3 A2 fr1 bnd g by auto
    ultimately show ?thesis unfolding res using len3 A2 A3 ms1 by simp
  qed
qed

lemma quicksort_three_way_sorted: "sorted (quicksort_three_way arr (length arr))"
proof (cases "length arr > 1")
  case True
  then have "sorted (sl (three_way_partition_sort arr 0 (length arr - 1)) 0 (Suc (length arr - 1)))"
    using three_way_partition_sort_correct[of "length arr - 1" arr 0] by simp
  moreover have "length (three_way_partition_sort arr 0 (length arr - 1)) = length arr"
    using three_way_partition_sort_correct[of "length arr - 1" arr 0] True by simp
  moreover have "Suc (length arr - 1) = length arr" using True by simp
  ultimately show ?thesis using True sl_whole[of "three_way_partition_sort arr 0 (length arr - 1)"]
    by (simp add: quicksort_three_way_def)
next
  case False
  then have "arr = [] \<or> (\<exists>x. arr = [x])" by (cases arr) auto
  then show ?thesis using False by (auto simp: quicksort_three_way_def)
qed

section \<open>Heap sort sorts\<close>

text \<open>
  \<open>heap_at arr n j\<close>: in the heap of the first \<open>n\<close> cells, node \<open>j\<close> is at least its
  children.  \<open>heapify\<close> at \<open>i\<close> repairs a heap that is in order everywhere from \<open>l\<close> on
  except at \<open>i\<close>, provided the parent of \<open>i\<close> (when it lies in \<open>l..\<close>) is at least the
  children of \<open>i\<close>.
\<close>

definition heap_at :: "int list \<Rightarrow> nat \<Rightarrow> nat \<Rightarrow> bool" where
  "heap_at arr n j =
     ((2 * j + 1 < n \<longrightarrow> arr ! (2 * j + 1) \<le> arr ! j) \<and> (2 * j + 2 < n \<longrightarrow> arr ! (2 * j + 2) \<le> arr ! j))"

lemma heapify_frame:
  "i < n \<Longrightarrow> n \<le> length arr \<Longrightarrow> k < i \<or> n \<le> k \<Longrightarrow> heapify arr n i ! k = arr ! k"
proof (induction arr n i rule: heapify.induct)
  case (1 arr n i)
  define left where "left = 2 * i + 1"
  define right where "right = 2 * i + 2"
  define l1 where "l1 = (if left < n \<and> arr ! left > arr ! i then left else i)"
  define largest where "largest = (if right < n \<and> arr ! right > arr ! l1 then right else l1)"
  have unf: "heapify arr n i = (if largest \<noteq> i then heapify (swap arr i largest) n largest else arr)"
    by (subst heapify.simps) (simp add: Let_def left_def right_def l1_def largest_def)
  show ?case
  proof (cases "largest \<noteq> i")
    case False
    then show ?thesis by (simp add: unf)
  next
    case True
    have lh: "largest < n" "i < largest"
      using "1.prems" True by (auto simp: largest_def l1_def left_def right_def split: if_splits)
    have k: "k < largest \<or> n \<le> k" "k \<noteq> i" "k \<noteq> largest" using "1.prems"(1,3) lh by auto
    have "heapify (swap arr i largest) n largest ! k = swap arr i largest ! k"
      using "1.IH"[OF left_def right_def l1_def largest_def True lh(1) _ k(1)] "1.prems" by simp
    also have "\<dots> = arr ! k" using k lh "1.prems" by (simp add: nth_swap)
    finally show ?thesis using True by (simp add: unf)
  qed
qed

lemma heapify_heap:
  "i < n \<Longrightarrow> n \<le> length arr \<Longrightarrow> l \<le> i \<Longrightarrow>
   \<forall>j. l \<le> j \<and> j < n \<and> j \<noteq> i \<longrightarrow> heap_at arr n j \<Longrightarrow>
   0 < i \<and> l \<le> (i - 1) div 2 \<longrightarrow>
       (2 * i + 1 < n \<longrightarrow> arr ! (2 * i + 1) \<le> arr ! ((i - 1) div 2)) \<and>
       (2 * i + 2 < n \<longrightarrow> arr ! (2 * i + 2) \<le> arr ! ((i - 1) div 2)) \<Longrightarrow>
   \<forall>j. l \<le> j \<and> j < n \<longrightarrow> heap_at (heapify arr n i) n j"
proof (induction arr n i rule: heapify.induct)
  case (1 arr n i)
  define left where "left = 2 * i + 1"
  define right where "right = 2 * i + 2"
  define l1 where "l1 = (if left < n \<and> arr ! left > arr ! i then left else i)"
  define largest where "largest = (if right < n \<and> arr ! right > arr ! l1 then right else l1)"
  have unf: "heapify arr n i = (if largest \<noteq> i then heapify (swap arr i largest) n largest else arr)"
    by (subst heapify.simps) (simp add: Let_def left_def right_def l1_def largest_def)
  note others = "1.prems"(4) and parent = "1.prems"(5)
  show ?case
  proof (cases "largest \<noteq> i")
    case False
    then have "heap_at arr n i"
      by (auto simp: heap_at_def largest_def l1_def left_def right_def split: if_splits)
    then show ?thesis using False others by (auto simp: unf)
  next
    case True
    define c where "c = largest"
    define arr' where "arr' = swap arr i c"
    have c: "c = left \<or> c = right" "c < n" "arr ! i < arr ! c"
      using True by (auto simp: c_def largest_def l1_def split: if_splits)
    have cl: "left < n \<longrightarrow> arr ! left \<le> arr ! c"
      by (auto simp: c_def largest_def l1_def split: if_splits)
    have cr: "right < n \<longrightarrow> arr ! right \<le> arr ! c"
      by (auto simp: c_def largest_def l1_def split: if_splits)
    have ic: "i < c" "(c - 1) div 2 = i" using c(1) by (auto simp: left_def right_def)
    have il: "i < length arr" "c < length arr" using "1.prems"(1,2) c(2) by simp_all
    have nth': "arr' ! k = (if k = c then arr ! i else if k = i then arr ! c else arr ! k)" for k
      unfolding arr'_def using il by (simp add: nth_swap)
    have pre1: "\<forall>j. l \<le> j \<and> j < n \<and> j \<noteq> c \<longrightarrow> heap_at arr' n j"
    proof (intro allI impI)
      fix j assume j: "l \<le> j \<and> j < n \<and> j \<noteq> c"
      show "heap_at arr' n j"
      proof (cases "j = i")
        case True
        then show ?thesis
          using c cl cr by (auto simp: heap_at_def nth' left_def right_def)
      next
        case False
        then have hj: "heap_at arr n j" using others j by simp
        have nc: "2 * j + 1 \<noteq> c" "2 * j + 2 \<noteq> c"
          using False c(1) by (auto simp: left_def right_def)
        have one: "arr' ! (2 * j + 1) \<le> arr ! j" if lt: "2 * j + 1 < n"
        proof (cases "2 * j + 1 = i")
          case True
          then have pj: "(i - 1) div 2 = j" "0 < i" by auto
          then have "arr ! c \<le> arr ! j" using parent j c by (auto simp: left_def right_def)
          then show ?thesis using True nc by (simp add: nth')
        next
          case False
          then show ?thesis using hj lt nc by (simp add: nth' heap_at_def)
        qed
        have two: "arr' ! (2 * j + 2) \<le> arr ! j" if lt: "2 * j + 2 < n"
        proof (cases "2 * j + 2 = i")
          case True
          then have pj: "(i - 1) div 2 = j" "0 < i" by auto
          then have "arr ! c \<le> arr ! j" using parent j c by (auto simp: left_def right_def)
          then show ?thesis using True nc by (simp add: nth')
        next
          case False
          then show ?thesis using hj lt nc by (simp add: nth' heap_at_def)
        qed
        have "arr' ! j = arr ! j" using False j by (simp add: nth')
        then show ?thesis using one two by (simp add: heap_at_def)
      qed
    qed
    have hc: "heap_at arr n c" using others c(2) ic "1.prems"(3) by simp
    have pre2: "0 < c \<and> l \<le> (c - 1) div 2 \<longrightarrow>
       (2 * c + 1 < n \<longrightarrow> arr' ! (2 * c + 1) \<le> arr' ! ((c - 1) div 2)) \<and>
       (2 * c + 2 < n \<longrightarrow> arr' ! (2 * c + 2) \<le> arr' ! ((c - 1) div 2))"
      using hc ic by (auto simp: nth' heap_at_def)
    have lc: "l \<le> c" using "1.prems"(3) ic by simp
    have "\<forall>j. l \<le> j \<and> j < n \<longrightarrow> heap_at (heapify arr' n c) n j"
      using "1.IH"[OF left_def right_def l1_def largest_def True, folded c_def,
          OF c(2) _ lc pre1[unfolded arr'_def] pre2[unfolded arr'_def]]
        "1.prems"(2) by (simp add: arr'_def)
    then show ?thesis using True by (simp add: unf c_def arr'_def)
  qed
qed

lemma build_max_heap_loop_heap:
  "i < int n \<Longrightarrow> n \<le> length arr \<Longrightarrow> \<forall>j. i < int j \<and> j < n \<longrightarrow> heap_at arr n j \<Longrightarrow>
     \<forall>j<n. heap_at (build_max_heap_loop arr n i) n j"
proof (induction arr n i rule: build_max_heap_loop.induct)
  case (1 arr n i)
  show ?case
  proof (cases "i \<ge> 0")
    case False
    then show ?thesis using "1.prems" by (subst build_max_heap_loop.simps) simp
  next
    case True
    define arr1 where "arr1 = heapify arr n (nat i)"
    have i: "nat i < n" using True "1.prems"(1) by simp
    have len: "length arr1 = length arr" unfolding arr1_def using heapify_mset[OF i "1.prems"(2)] by simp
    have "\<forall>j. nat i \<le> j \<and> j < n \<longrightarrow> heap_at arr1 n j"
      unfolding arr1_def
    proof (rule heapify_heap[OF i "1.prems"(2) order_refl])
      show "\<forall>j. nat i \<le> j \<and> j < n \<and> j \<noteq> nat i \<longrightarrow> heap_at arr n j"
        using "1.prems"(3) True by auto
      show "0 < nat i \<and> nat i \<le> (nat i - 1) div 2 \<longrightarrow>
        (2 * nat i + 1 < n \<longrightarrow> arr ! (2 * nat i + 1) \<le> arr ! ((nat i - 1) div 2)) \<and>
        (2 * nat i + 2 < n \<longrightarrow> arr ! (2 * nat i + 2) \<le> arr ! ((nat i - 1) div 2))"
        by auto
    qed
    then have "\<forall>j. i - 1 < int j \<and> j < n \<longrightarrow> heap_at arr1 n j" by auto
    from "1.IH"[OF True, folded arr1_def, OF _ _ this] "1.prems" len True
    have "\<forall>j<n. heap_at (build_max_heap_loop arr1 n (i - 1)) n j" by simp
    then show ?thesis using True by (subst build_max_heap_loop.simps) (simp add: arr1_def)
  qed
qed

lemma heap_root_max: "\<forall>j<n. heap_at arr n j \<Longrightarrow> k < n \<Longrightarrow> arr ! k \<le> arr ! 0"
proof (induction k rule: less_induct)
  case (less k)
  show ?case
  proof (cases "k = 0")
    case True
    then show ?thesis by simp
  next
    case False
    define p where "p = (k - 1) div 2"
    have p: "p < k" "k = 2 * p + 1 \<or> k = 2 * p + 2" using False by (auto simp: p_def)
    have "heap_at arr n p" using less.prems p by simp
    then have "arr ! k \<le> arr ! p" using p(2) less.prems(2) by (auto simp: heap_at_def)
    moreover have "arr ! p \<le> arr ! 0" using less.IH[OF p(1) less.prems(1)] p(1) less.prems(2) by simp
    ultimately show ?thesis by simp
  qed
qed

lemma mset_take_frame:
  assumes "length r = length a" "mset r = mset a" "\<forall>k. h \<le> k \<longrightarrow> r ! k = a ! k"
  shows "mset (take h r) = mset (take h a)" and "drop h r = drop h a"
proof -
  show d: "drop h r = drop h a" using assms by (intro drop_frame) auto
  have "mset (take h r) + mset (drop h r) = mset r" "mset (take h a) + mset (drop h a) = mset a"
    by (simp_all only: mset_append[symmetric] append_take_drop_id)
  then have "mset (take h r) + mset (drop h a) = mset (take h a) + mset (drop h a)"
    using d assms(2) by simp
  then show "mset (take h r) = mset (take h a)" by (simp only: add_right_cancel)
qed

lemma heap_sort_loop_sorted:
  "i < length arr \<Longrightarrow> \<forall>j<Suc i. heap_at arr (Suc i) j \<Longrightarrow> sorted (drop (Suc i) arr) \<Longrightarrow>
   \<forall>x\<in>set (take (Suc i) arr). \<forall>y\<in>set (drop (Suc i) arr). x \<le> y \<Longrightarrow>
     sorted (heap_sort_loop arr i)"
proof (induction arr i rule: heap_sort_loop.induct)
  case (1 arr i)
  note il = "1.prems"(1) and hp = "1.prems"(2) and so = "1.prems"(3) and bd = "1.prems"(4)
  show ?case
  proof (cases "i > 0")
    case False
    then have i0: "i = 0" by simp
    obtain x xs where a: "arr = x # xs" using il by (cases arr) auto
    have "sorted (x # xs)" using so bd by (simp add: a i0)
    then show ?thesis using i0 a by (subst heap_sort_loop.simps) simp
  next
    case True
    define arr1 where "arr1 = swap arr 0 i"
    define arr2 where "arr2 = heapify arr1 i 0"
    have l0: "0 < length arr" using il by (cases arr) auto
    have nth1: "arr1 ! k = (if k = i then arr ! 0 else if k = 0 then arr ! i else arr ! k)" for k
      unfolding arr1_def using il l0 by (simp add: nth_swap)
    have len1: "length arr1 = length arr" by (simp add: arr1_def)
    have il1: "i \<le> length arr1" using il len1 by simp
    have hm: "length arr2 = length arr1 \<and> mset arr2 = mset arr1"
      unfolding arr2_def using heapify_mset[OF True il1] .
    have fr2: "\<forall>k. i \<le> k \<longrightarrow> arr2 ! k = arr1 ! k"
      unfolding arr2_def using heapify_frame[OF True il1] by simp
    have heap2: "\<forall>j. 0 \<le> j \<and> j < i \<longrightarrow> heap_at arr2 i j"
      unfolding arr2_def
    proof (rule heapify_heap[OF True il1 le0])
      show "\<forall>j. 0 \<le> j \<and> j < i \<and> j \<noteq> 0 \<longrightarrow> heap_at arr1 i j"
      proof (intro allI impI)
        fix j assume j: "0 \<le> j \<and> j < i \<and> j \<noteq> 0"
        then have "heap_at arr (Suc i) j" using hp by simp
        then show "heap_at arr1 i j" using j by (auto simp: heap_at_def nth1)
      qed
      show "0 < (0 :: nat) \<and> 0 \<le> (0 - 1) div 2 \<longrightarrow>
        (2 * 0 + 1 < i \<longrightarrow> arr1 ! (2 * 0 + 1) \<le> arr1 ! ((0 - 1) div 2)) \<and>
        (2 * 0 + 2 < i \<longrightarrow> arr1 ! (2 * 0 + 2) \<le> arr1 ! ((0 - 1) div 2))"
        by simp
    qed
    have mx: "\<forall>k<Suc i. arr ! k \<le> arr ! 0" using heap_root_max[OF hp] by simp
    have d1: "drop i arr1 = arr ! 0 # drop (Suc i) arr"
    proof -
      have "drop i arr1 = arr1 ! i # drop (Suc i) arr1"
        using il len1 by (simp add: Cons_nth_drop_Suc)
      moreover have "drop (Suc i) arr1 = drop (Suc i) arr"
        using len1 by (intro drop_frame) (auto simp: nth1)
      ultimately show ?thesis by (simp add: nth1)
    qed
    note tf = mset_take_frame[OF conjunct1[OF hm] conjunct2[OF hm] fr2]
    have d2: "drop i arr2 = arr ! 0 # drop (Suc i) arr" using tf(2) d1 by simp
    have t1: "set (take i arr1) \<subseteq> set (take (Suc i) arr)"
    proof
      fix x assume "x \<in> set (take i arr1)"
      then obtain k where k: "k < i" "x = arr1 ! k" using il1 by (auto simp: in_set_conv_nth)
      then have "x = arr ! (if k = 0 then i else k)" by (simp add: nth1)
      moreover have "(if k = 0 then i else k) < Suc i" using k by simp
      ultimately show "x \<in> set (take (Suc i) arr)"
        using il by (auto simp: in_set_conv_nth intro!: exI[of _ "if k = 0 then i else k"])
    qed
    have t2: "set (take i arr2) \<subseteq> set (take (Suc i) arr)"
      using t1 tf(1) by (metis set_mset_mset)
    have top: "\<forall>x\<in>set (take (Suc i) arr). x \<le> arr ! 0"
      using mx il by (auto simp: in_set_conv_nth)
    have a0: "arr ! 0 \<in> set (take (Suc i) arr)"
      using il by (auto simp: in_set_conv_nth intro!: exI[of _ 0])
    have so2: "sorted (drop (Suc (i - 1)) arr2)"
      using True so bd a0 by (simp add: d2)
    have bd2: "\<forall>x\<in>set (take (Suc (i - 1)) arr2). \<forall>y\<in>set (drop (Suc (i - 1)) arr2). x \<le> y"
      using True t2 top bd by (auto simp: d2)
    have hp2: "\<forall>j<Suc (i - 1). heap_at arr2 (Suc (i - 1)) j" using heap2 True by simp
    have "i - 1 < length arr2" using il hm len1 by simp
    from "1.IH"[OF True, folded arr1_def arr2_def, OF this hp2 so2 bd2]
    show ?thesis using True by (subst heap_sort_loop.simps) (simp add: arr1_def arr2_def)
  qed
qed

lemma heap_sort_sorted: "sorted (heap_sort arr (length arr))"
proof (cases "length arr \<le> 1")
  case True
  then have "arr = [] \<or> (\<exists>x. arr = [x])" by (cases arr) auto
  then show ?thesis using True by (auto simp: heap_sort_def)
next
  case False
  define n where "n = length arr"
  define arr1 where "arr1 = build_max_heap arr n"
  have n: "1 < n" using False by (simp add: n_def)
  have i0: "int (n div 2) - 1 < int n" by linarith
  have len1: "length arr1 = n"
    unfolding arr1_def build_max_heap_def Let_def
    using build_max_heap_loop_mset[OF i0, of arr] by (simp add: n_def)
  have leaves: "\<forall>j. int (n div 2) - 1 < int j \<and> j < n \<longrightarrow> heap_at arr n j"
    by (auto simp: heap_at_def)
  have hp: "\<forall>j<n. heap_at arr1 n j"
    unfolding arr1_def build_max_heap_def Let_def
    using build_max_heap_loop_heap[OF i0 _ leaves] by (simp add: n_def)
  have S: "Suc (n - 1) = n" using n by simp
  have "sorted (heap_sort_loop arr1 (n - 1))"
    using n len1 hp by (intro heap_sort_loop_sorted) (simp_all add: S)
  then show ?thesis using False by (simp add: heap_sort_def arr1_def n_def)
qed

section \<open>Mergesort: the merge as a function on lists\<close>

text \<open>
  \<open>lmerge\<close> is the merge of two lists with the tie-break of the C loop (the left head
  first when the keys are equal).  It is the value the three loops of \<open>merge\<close> write
  into \<open>arr[left..right]\<close>.
\<close>

fun lmerge :: "('a \<Rightarrow> int) \<Rightarrow> 'a list \<Rightarrow> 'a list \<Rightarrow> 'a list" where
  "lmerge key [] ys = ys"
| "lmerge key xs [] = xs"
| "lmerge key (x # xs) (y # ys) =
     (if key x \<le> key y then x # lmerge key xs (y # ys) else y # lmerge key (x # xs) ys)"

lemma lmerge_Nil2 [simp]: "lmerge key xs [] = xs"
  by (cases xs) auto

lemma mset_lmerge: "mset (lmerge key xs ys) = mset xs + mset ys"
  by (induction key xs ys rule: lmerge.induct) auto

lemma length_lmerge: "length (lmerge key xs ys) = length xs + length ys"
  by (induction key xs ys rule: lmerge.induct) auto

lemma set_lmerge: "set (lmerge key xs ys) = set xs \<union> set ys"
  by (induction key xs ys rule: lmerge.induct) auto

lemma sorted_lmerge:
  "sorted (map key xs) \<Longrightarrow> sorted (map key ys) \<Longrightarrow> sorted (map key (lmerge key xs ys))"
  by (induction key xs ys rule: lmerge.induct) (auto simp: set_lmerge)

lemma filter_lmerge:
  "sorted (map key xs) \<Longrightarrow>
     filter (\<lambda>x. key x = v) (lmerge key xs ys) = filter (\<lambda>x. key x = v) xs @ filter (\<lambda>x. key x = v) ys"
proof (induction key xs ys rule: lmerge.induct)
  case (3 key x xs y ys)
  show ?case
  proof (cases "key x \<le> key y")
    case True
    with 3 show ?thesis by auto
  next
    case False
    have "\<forall>z\<in>set (x # xs). key y < key z"
      using False "3.prems" by auto
    then have none: "key y = v \<Longrightarrow> filter (\<lambda>x. key x = v) (x # xs) = []"
      by (auto simp: filter_empty_conv)
    show ?thesis
      using False "3.IH"(2)[OF False "3.prems"] none by (cases "key y = v") auto
  qed
qed auto

lemma copy_rest_eq:
  "i \<le> n \<Longrightarrow> n \<le> length src \<Longrightarrow> k + (n - i) \<le> length arr \<Longrightarrow>
     copy_rest arr src n i k = (take k arr @ drop i (take n src) @ drop (k + (n - i)) arr, k + (n - i))"
proof (induction arr src n i k rule: copy_rest.induct)
  case (1 arr src n i k)
  show ?case
  proof (cases "i < n")
    case False
    with "1.prems" show ?thesis by (subst copy_rest.simps) simp
  next
    case True
    have k: "k < length arr" using True "1.prems" by linarith
    have p1: "i + 1 \<le> n" using True by simp
    have p2: "k + 1 + (n - (i + 1)) \<le> length (arr[k := src ! i])"
      using True "1.prems" by (simp, linarith?)
    have ih: "copy_rest (arr[k := src ! i]) src n (i + 1) (k + 1) =
        (take (k + 1) (arr[k := src ! i]) @ drop (i + 1) (take n src) @ drop (k + 1 + (n - (i + 1))) (arr[k := src ! i]),
         k + 1 + (n - (i + 1)))"
      by (rule "1.IH"[OF True p1 "1.prems"(2) p2])
    have t: "take (k + 1) (arr[k := src ! i]) = take k arr @ [src ! i]"
      using k by (simp add: take_Suc_conv_app_nth)
    have e: "k + 1 + (n - (i + 1)) = k + (n - i)"
      using True by linarith
    have "k < k + (n - i)" using True by linarith
    then have d: "drop (k + (n - i)) (arr[k := src ! i]) = drop (k + (n - i)) arr"
      by (rule drop_update_cancel)
    have s: "drop i (take n src) = src ! i # drop (i + 1) (take n src)"
      using True "1.prems" by (simp add: Cons_nth_drop_Suc[symmetric])
    have step: "copy_rest arr src n i k = copy_rest (arr[k := src ! i]) src n (i + 1) (k + 1)"
      using True by (subst copy_rest.simps) simp
    show ?thesis
      unfolding step ih t d e s by simp
  qed
qed

definition merge_all ::
  "('a \<Rightarrow> int) \<Rightarrow> 'a list \<Rightarrow> 'a list \<Rightarrow> nat \<Rightarrow> 'a list \<Rightarrow> nat \<Rightarrow> nat \<Rightarrow> nat \<Rightarrow> nat \<Rightarrow> 'a list" where
  "merge_all key arr left_arr left_size right_arr right_size i j k =
     (let (arr1, i1, j1, k1) = merge_main key arr left_arr left_size right_arr right_size i j k;
          (arr2, k2) = copy_rest arr1 left_arr left_size i1 k1;
          (arr3, k3) = copy_rest arr2 right_arr right_size j1 k2
      in arr3)"

lemma merge_all_eq:
  "i \<le> ls \<Longrightarrow> ls = length L \<Longrightarrow> j \<le> rs \<Longrightarrow> rs = length R \<Longrightarrow> k + (ls - i) + (rs - j) \<le> length arr \<Longrightarrow>
     merge_all key arr L ls R rs i j k =
       take k arr @ lmerge key (drop i L) (drop j R) @ drop (k + (ls - i) + (rs - j)) arr"
proof (induction key arr L ls R rs i j k rule: merge_main.induct)
  case (1 key arr L ls R rs i j k)
  show ?case
  proof (cases "i < ls \<and> j < rs")
    case False
    then have mm: "merge_main key arr L ls R rs i j k = (arr, i, j, k)"
      by (subst merge_main.simps) auto
    let ?a2 = "take k arr @ drop i L @ drop (k + (ls - i)) arr"
    have c1: "copy_rest arr L ls i k = (?a2, k + (ls - i))"
      using copy_rest_eq[of i ls L k arr] "1.prems" by simp
    have len2: "length ?a2 = length arr" using "1.prems" by simp
    have c2: "copy_rest ?a2 R rs j (k + (ls - i)) =
       (take (k + (ls - i)) ?a2 @ drop j R @ drop (k + (ls - i) + (rs - j)) ?a2, k + (ls - i) + (rs - j))"
      using copy_rest_eq[of j rs R "k + (ls - i)" ?a2] "1.prems" len2 by simp
    have t: "take (k + (ls - i)) ?a2 = take k arr @ drop i L"
      using "1.prems" by simp
    have d: "drop (k + (ls - i) + (rs - j)) ?a2 = drop (k + (ls - i) + (rs - j)) arr"
    proof -
      define A where "A = k + (ls - i)"
      define B where "B = rs - j"
      have lenp: "length (take k arr @ drop i L) = A"
        using "1.prems" by (simp add: A_def)
      have "drop (A + B) ((take k arr @ drop i L) @ drop A arr) = drop B (drop A arr)"
        using lenp by simp
      also have "\<dots> = drop (A + B) arr"
        by (simp add: add.commute)
      finally show ?thesis by (simp add: A_def B_def)
    qed
    have lm: "lmerge key (drop i L) (drop j R) = drop i L @ drop j R"
      using False "1.prems" by (cases "i < ls") auto
    show ?thesis
      unfolding merge_all_def mm using c1 c2 t d lm by simp
  next
    case True
    have k: "k < length arr" using True "1.prems" by linarith
    have Li: "drop i L = L ! i # drop (i + 1) L" and Rj: "drop j R = R ! j # drop (j + 1) R"
      using True "1.prems" by (simp_all add: Cons_nth_drop_Suc)
    show ?thesis
    proof (cases "key (L ! i) \<le> key (R ! j)")
      case le: True
      have mm: "merge_main key arr L ls R rs i j k = merge_main key (arr[k := L ! i]) L ls R rs (i + 1) j (k + 1)"
        using True le by (subst merge_main.simps) simp
      have p1: "i + 1 \<le> ls" using True by simp
      have p2: "k + 1 + (ls - (i + 1)) + (rs - j) \<le> length (arr[k := L ! i])"
        using True "1.prems" by (simp, linarith?)
      have ih: "merge_all key (arr[k := L ! i]) L ls R rs (i + 1) j (k + 1) =
         take (k + 1) (arr[k := L ! i]) @ lmerge key (drop (i + 1) L) (drop j R)
           @ drop (k + 1 + (ls - (i + 1)) + (rs - j)) (arr[k := L ! i])"
        by (rule "1.IH"(1)[OF True le p1 "1.prems"(2,3,4) p2])
      have t: "take (k + 1) (arr[k := L ! i]) = take k arr @ [L ! i]"
        using k by (simp add: take_Suc_conv_app_nth)
      have e: "k + 1 + (ls - (i + 1)) + (rs - j) = k + (ls - i) + (rs - j)"
        using True by linarith
      have "k < k + (ls - i) + (rs - j)" using True by linarith
      then have d: "drop (k + (ls - i) + (rs - j)) (arr[k := L ! i]) = drop (k + (ls - i) + (rs - j)) arr"
        by (rule drop_update_cancel)
      have lm: "lmerge key (drop i L) (drop j R) = L ! i # lmerge key (drop (i + 1) L) (drop j R)"
        using le by (subst Li, subst (1 2) Rj) simp
      have step: "merge_all key arr L ls R rs i j k = merge_all key (arr[k := L ! i]) L ls R rs (i + 1) j (k + 1)"
        by (simp add: merge_all_def mm)
      show ?thesis unfolding step ih t e d lm by simp
    next
      case gt: False
      have mm: "merge_main key arr L ls R rs i j k = merge_main key (arr[k := R ! j]) L ls R rs i (j + 1) (k + 1)"
        using True gt by (subst merge_main.simps) simp
      have p1: "j + 1 \<le> rs" using True by simp
      have p2: "k + 1 + (ls - i) + (rs - (j + 1)) \<le> length (arr[k := R ! j])"
        using True "1.prems" by (simp, linarith?)
      have ih: "merge_all key (arr[k := R ! j]) L ls R rs i (j + 1) (k + 1) =
         take (k + 1) (arr[k := R ! j]) @ lmerge key (drop i L) (drop (j + 1) R)
           @ drop (k + 1 + (ls - i) + (rs - (j + 1))) (arr[k := R ! j])"
        by (rule "1.IH"(2)[OF True gt "1.prems"(1,2) p1 "1.prems"(4) p2])
      have t: "take (k + 1) (arr[k := R ! j]) = take k arr @ [R ! j]"
        using k by (simp add: take_Suc_conv_app_nth)
      have e: "k + 1 + (ls - i) + (rs - (j + 1)) = k + (ls - i) + (rs - j)"
        using True by linarith
      have "k < k + (ls - i) + (rs - j)" using True by linarith
      then have d: "drop (k + (ls - i) + (rs - j)) (arr[k := R ! j]) = drop (k + (ls - i) + (rs - j)) arr"
        by (rule drop_update_cancel)
      have lm: "lmerge key (drop i L) (drop j R) = R ! j # lmerge key (drop i L) (drop (j + 1) R)"
        using gt by (subst (1 2) Li, subst Rj) simp
      have step: "merge_all key arr L ls R rs i j k = merge_all key (arr[k := R ! j]) L ls R rs i (j + 1) (k + 1)"
        by (simp add: merge_all_def mm)
      show ?thesis unfolding step ih t e d lm by simp
    qed
  qed
qed

lemma sl_take_frame: "take n r = take n a \<Longrightarrow> h \<le> n \<Longrightarrow> sl r l h = sl a l h"
proof -
  assume a: "take n r = take n a" "h \<le> n"
  have "take h r = take h (take n r)" "take h a = take h (take n a)"
    using a(2) by (simp_all add: min_def)
  then have "take h r = take h a" using a(1) by simp
  then have "drop l (take h r) = drop l (take h a)" by simp
  then show ?thesis by (simp add: sl_def drop_take)
qed

lemma sl_drop_frame: "drop n r = drop n a \<Longrightarrow> n \<le> l \<Longrightarrow> sl r l h = sl a l h"
proof -
  assume a: "drop n r = drop n a" "n \<le> l"
  have "drop l r = drop (l - n) (drop n r)" "drop l a = drop (l - n) (drop n a)"
    using a(2) by simp_all
  then have "drop l r = drop l a" using a(1) by simp
  then show ?thesis by (simp add: sl_def)
qed

lemma sl_sandwich:
  "length M = h - l \<Longrightarrow> l \<le> h \<Longrightarrow> l \<le> length a \<Longrightarrow> sl (take l a @ M @ drop h a) l h = M"
  by (simp add: sl_def)

lemma copy_out_sl: "l + n \<le> length arr \<Longrightarrow> map (\<lambda>i. arr ! (l + i)) [0..<n] = sl arr l (l + n)"
  by (rule nth_equalityI) (auto simp: length_sl nth_sl)

definition merged :: "('a \<Rightarrow> int) \<Rightarrow> 'a list \<Rightarrow> nat \<Rightarrow> nat \<Rightarrow> nat \<Rightarrow> 'a list" where
  "merged key arr left mid right =
     take left arr @ lmerge key (sl arr left (Suc mid)) (sl arr (Suc mid) (Suc right)) @ drop (Suc right) arr"

lemma merge_eq:
  assumes "left \<le> mid" "mid \<le> right" "right < length arr"
  shows "merge key h arr left mid right =
     (snd (alloc (snd (alloc h))),
      if fst (alloc h) \<and> fst (alloc (snd (alloc h))) then merged key arr left mid right else arr)"
proof -
  let ?ls = "mid - left + 1" and ?rs = "right - mid"
  let ?L = "map (\<lambda>i. arr ! (left + i)) [0..<?ls]" and ?R = "map (\<lambda>j. arr ! (mid + 1 + j)) [0..<?rs]"
  have L: "?L = sl arr left (Suc mid)"
    using copy_out_sl[of left ?ls arr] assms by simp
  have R: "?R = sl arr (Suc mid) (Suc right)"
    using copy_out_sl[of "mid + 1" ?rs arr] assms by simp
  have e: "left + (?ls - 0) + (?rs - 0) = Suc right" using assms by linarith
  have "merge_all key arr ?L ?ls ?R ?rs 0 0 left =
     take left arr @ lmerge key (drop 0 ?L) (drop 0 ?R) @ drop (left + (?ls - 0) + (?rs - 0)) arr"
    using assms by (intro merge_all_eq) (simp_all, linarith?)
  then have m: "merge_all key arr ?L ?ls ?R ?rs 0 0 left = merged key arr left mid right"
    unfolding e merged_def L R by simp
  show ?thesis
    unfolding merge_def Let_def m[unfolded merge_all_def Let_def, symmetric]
    by (auto split: prod.splits)
qed

lemma merged_props:
  assumes "left \<le> mid" "mid \<le> right" "right < length arr"
  shows "length (merged key arr left mid right) = length arr"
    and "take left (merged key arr left mid right) = take left arr"
    and "drop (Suc right) (merged key arr left mid right) = drop (Suc right) arr"
    and "sl (merged key arr left mid right) left (Suc right) =
           lmerge key (sl arr left (Suc mid)) (sl arr (Suc mid) (Suc right))"
    and "mset (merged key arr left mid right) = mset arr"
proof -
  let ?M = "lmerge key (sl arr left (Suc mid)) (sl arr (Suc mid) (Suc right))"
  have lm: "length ?M = Suc right - left"
    using assms by (simp add: length_lmerge length_sl)
  show len: "length (merged key arr left mid right) = length arr"
    using assms lm by (simp add: merged_def)
  show "take left (merged key arr left mid right) = take left arr"
    using assms by (simp add: merged_def)
  have "drop (Suc right) (take left arr @ ?M @ drop (Suc right) arr)
      = drop (Suc right - left) (?M @ drop (Suc right) arr)"
    using assms by simp
  also have "\<dots> = drop (Suc right) arr" using lm by simp
  finally show "drop (Suc right) (merged key arr left mid right) = drop (Suc right) arr"
    by (simp add: merged_def)
  show "sl (merged key arr left mid right) left (Suc right) = ?M"
    unfolding merged_def using lm assms by (intro sl_sandwich) auto
  have "mset ?M = mset (sl arr left (Suc right))"
    using assms sl_append[of left "Suc mid" "Suc right" arr] by (simp add: mset_lmerge)
  then have "mset (merged key arr left mid right) = mset (take left arr @ sl arr left (Suc right) @ drop (Suc right) arr)"
    by (simp add: merged_def)
  then show "mset (merged key arr left mid right) = mset arr"
    using assms by (simp only: sl_split[of left "Suc right" arr])
qed

lemma mergesort_recursive_frame:
  "right < length arr \<Longrightarrow>
     length (snd (mergesort_recursive key h arr left right)) = length arr \<and>
     take left (snd (mergesort_recursive key h arr left right)) = take left arr \<and>
     drop (Suc right) (snd (mergesort_recursive key h arr left right)) = drop (Suc right) arr \<and>
     mset (snd (mergesort_recursive key h arr left right)) = mset arr"
proof (induction key h arr left right rule: mergesort_recursive.induct)
  case (1 key h arr left right)
  show ?case
  proof (cases "left < right")
    case False
    then show ?thesis by (subst (1 2 3 4) mergesort_recursive.simps) simp
  next
    case True
    define mid where "mid = left + (right - left) div 2"
    obtain h1 a1 where r1: "mergesort_recursive key h arr left mid = (h1, a1)"
      by (cases "mergesort_recursive key h arr left mid")
    obtain h2 a2 where r2: "mergesort_recursive key h1 a1 (mid + 1) right = (h2, a2)"
      by (cases "mergesort_recursive key h1 a1 (mid + 1) right")
    have res: "mergesort_recursive key h arr left right = merge key h2 a2 left mid right"
      using True r1 r2 by (subst mergesort_recursive.simps) (simp add: mid_def Let_def)
    have m: "left \<le> mid" "mid < right" using True by (auto simp: mid_def)
    have I1: "length a1 = length arr \<and> take left a1 = take left arr \<and>
        drop (Suc mid) a1 = drop (Suc mid) arr \<and> mset a1 = mset arr"
      using "1.IH"(1)[OF True mid_def] m "1.prems" r1 by simp
    have I2: "length a2 = length a1 \<and> take (mid + 1) a2 = take (mid + 1) a1 \<and>
        drop (Suc right) a2 = drop (Suc right) a1 \<and> mset a2 = mset a1"
      using "1.IH"(2)[OF True mid_def r1[symmetric]] I1 "1.prems" r2 by simp
    have r: "right < length a2" using I1 I2 "1.prems" by simp
    have tl: "take left a2 = take left a1"
    proof -
      have "take left (take (mid + 1) a2) = take left (take (mid + 1) a1)" using I2 by simp
      then show ?thesis using m by (simp add: min_def)
    qed
    have dr: "drop (Suc right) a1 = drop (Suc right) arr"
    proof -
      have "drop (right - mid) (drop (Suc mid) a1) = drop (right - mid) (drop (Suc mid) arr)"
        using I1 by simp
      then show ?thesis using m by simp
    qed
    note mp = merged_props[OF m(1) less_imp_le[OF m(2)] r, of key]
    show ?thesis
      unfolding res merge_eq[OF m(1) less_imp_le[OF m(2)] r]
      using mp I1 I2 tl dr by auto
  qed
qed

lemma merge_all_succeed:
  assumes "left \<le> mid" "mid \<le> right" "right < length arr" "all_succeed h"
  shows "snd (merge key h arr left mid right) = merged key arr left mid right"
    and "all_succeed (fst (merge key h arr left mid right))"
  using alloc_all_succeed[OF assms(4)] alloc_all_succeed[of "snd (alloc h)"]
  by (simp_all add: merge_eq[OF assms(1,2,3)])

lemma mergesort_recursive_sorted:
  "right < length arr \<Longrightarrow> all_succeed h \<Longrightarrow>
     all_succeed (fst (mergesort_recursive key h arr left right)) \<and>
     sorted (map key (sl (snd (mergesort_recursive key h arr left right)) left (Suc right))) \<and>
     (\<forall>v. filter (\<lambda>x. key x = v) (sl (snd (mergesort_recursive key h arr left right)) left (Suc right))
          = filter (\<lambda>x. key x = v) (sl arr left (Suc right)))"
proof (induction key h arr left right rule: mergesort_recursive.induct)
  case (1 key h arr left right)
  show ?case
  proof (cases "left < right")
    case False
    then have "sl arr left (Suc right) = [] \<or> sl arr left (Suc right) = [arr ! left]"
      using "1.prems" sl_single[of left arr] by (cases "left = right") auto
    then show ?thesis using False "1.prems"
      by (subst (1 2 3) mergesort_recursive.simps) auto
  next
    case True
    define mid where "mid = left + (right - left) div 2"
    obtain h1 a1 where r1: "mergesort_recursive key h arr left mid = (h1, a1)"
      by (cases "mergesort_recursive key h arr left mid")
    obtain h2 a2 where r2: "mergesort_recursive key h1 a1 (mid + 1) right = (h2, a2)"
      by (cases "mergesort_recursive key h1 a1 (mid + 1) right")
    have res: "mergesort_recursive key h arr left right = merge key h2 a2 left mid right"
      using True r1 r2 by (subst mergesort_recursive.simps) (simp add: mid_def Let_def)
    have m: "left \<le> mid" "mid < right" using True by (auto simp: mid_def)
    have F1: "length a1 = length arr \<and> take left a1 = take left arr \<and>
        drop (Suc mid) a1 = drop (Suc mid) arr \<and> mset a1 = mset arr"
      using mergesort_recursive_frame[of mid arr key h left] m "1.prems" r1 by simp
    have F2: "length a2 = length a1 \<and> take (Suc mid) a2 = take (Suc mid) a1 \<and>
        drop (Suc right) a2 = drop (Suc right) a1 \<and> mset a2 = mset a1"
      using mergesort_recursive_frame[of right a1 key h1 "mid + 1"] F1 "1.prems" r2 by simp
    have I1: "all_succeed h1 \<and> sorted (map key (sl a1 left (Suc mid))) \<and>
        (\<forall>v. filter (\<lambda>x. key x = v) (sl a1 left (Suc mid)) = filter (\<lambda>x. key x = v) (sl arr left (Suc mid)))"
      using "1.IH"(1)[OF True mid_def] m "1.prems" r1 by simp
    have I2: "all_succeed h2 \<and> sorted (map key (sl a2 (Suc mid) (Suc right))) \<and>
        (\<forall>v. filter (\<lambda>x. key x = v) (sl a2 (Suc mid) (Suc right)) = filter (\<lambda>x. key x = v) (sl a1 (Suc mid) (Suc right)))"
      using "1.IH"(2)[OF True mid_def r1[symmetric]] F1 I1 "1.prems" r2 by simp
    have r: "right < length a2" using F1 F2 "1.prems" by simp
    have L: "sl a2 left (Suc mid) = sl a1 left (Suc mid)"
      using F2 by (intro sl_take_frame[of "Suc mid"]) auto
    have R: "sl a1 (Suc mid) (Suc right) = sl arr (Suc mid) (Suc right)"
      using F1 by (intro sl_drop_frame[of "Suc mid"]) auto
    note ms = merge_all_succeed[OF m(1) less_imp_le[OF m(2)] r, of h2 key]
    note mp = merged_props(4)[OF m(1) less_imp_le[OF m(2)] r, of key]
    have seg: "sl (snd (mergesort_recursive key h arr left right)) left (Suc right)
        = lmerge key (sl a2 left (Suc mid)) (sl a2 (Suc mid) (Suc right))"
      unfolding res using ms(1) mp I2 by simp
    have dec: "sl arr left (Suc right) = sl arr left (Suc mid) @ sl arr (Suc mid) (Suc right)"
      using m by (intro sl_append) auto
    have "sorted (map key (lmerge key (sl a2 left (Suc mid)) (sl a2 (Suc mid) (Suc right))))"
      using I1 I2 L by (intro sorted_lmerge) auto
    moreover have "\<forall>v. filter (\<lambda>x. key x = v) (lmerge key (sl a2 left (Suc mid)) (sl a2 (Suc mid) (Suc right)))
         = filter (\<lambda>x. key x = v) (sl arr left (Suc right))"
      using I1 I2 L R by (simp add: filter_lmerge dec)
    moreover have "all_succeed (fst (mergesort_recursive key h arr left right))"
      unfolding res using ms(2) I2 by simp
    ultimately show ?thesis unfolding seg by simp
  qed
qed

lemma mergesort_mset: "mset (snd (mergesort key h arr (length arr))) = mset arr"
  using mergesort_recursive_frame[of "length arr - 1" arr key h 0]
  by (auto simp: mergesort_def)

lemma mergesort_length: "length (snd (mergesort key h arr (length arr))) = length arr"
  using mergesort_recursive_frame[of "length arr - 1" arr key h 0]
  by (auto simp: mergesort_def)

lemma mergesort_whole:
  assumes "1 < length arr"
  shows "sl (snd (mergesort_recursive key h arr 0 (length arr - 1))) 0 (Suc (length arr - 1))
       = snd (mergesort_recursive key h arr 0 (length arr - 1))"
    and "sl arr 0 (Suc (length arr - 1)) = arr"
proof -
  have e: "Suc (length arr - 1) = length arr" using assms by simp
  have l: "length (snd (mergesort_recursive key h arr 0 (length arr - 1))) = length arr"
    using mergesort_recursive_frame[of "length arr - 1" arr key h 0] assms by simp
  show "sl (snd (mergesort_recursive key h arr 0 (length arr - 1))) 0 (Suc (length arr - 1))
       = snd (mergesort_recursive key h arr 0 (length arr - 1))"
    unfolding e using sl_whole[of "snd (mergesort_recursive key h arr 0 (length arr - 1))"] l
    by (simp only:)
  show "sl arr 0 (Suc (length arr - 1)) = arr" unfolding e by simp
qed

lemma mergesort_sorted:
  assumes "all_succeed h"
  shows "sorted (map key (snd (mergesort key h arr (length arr))))"
proof (cases "1 < length arr")
  case True
  have "length arr - 1 < length arr" using True by simp
  from mergesort_recursive_sorted[OF this assms, of key 0]
    mergesort_whole(1)[OF True, of key h] mergesort_whole(2)[OF True]
  show ?thesis using True by (simp add: mergesort_def)
next
  case False
  then have "arr = [] \<or> (\<exists>x. arr = [x])" by (cases arr) auto
  then show ?thesis using False by (auto simp: mergesort_def)
qed

lemma mergesort_stable:
  assumes "all_succeed h"
  shows "filter (\<lambda>x. key x = v) (snd (mergesort key h arr (length arr))) = filter (\<lambda>x. key x = v) arr"
proof (cases "1 < length arr")
  case True
  have "length arr - 1 < length arr" using True by simp
  from mergesort_recursive_sorted[OF this assms, of key 0]
    mergesort_whole(1)[OF True, of key h] mergesort_whole(2)[OF True]
  show ?thesis using True by (simp add: mergesort_def)
next
  case False
  then show ?thesis by (simp add: mergesort_def)
qed

section \<open>The counting passes: tally, cumulate, place\<close>

text \<open>
  \<open>bucket_sort b nb arr\<close> lists the elements of bucket 0 in their order in \<open>arr\<close>, then
  those of bucket 1, and so on: the stable distribution of \<open>arr\<close> into \<open>nb\<close> buckets.
  \<open>below b arr d\<close> counts the elements whose bucket is less than \<open>d\<close>: the index
  where bucket \<open>d\<close> starts in the output.  The three loops compute \<open>bucket_sort\<close>.
\<close>

definition bucket_sort :: "('a \<Rightarrow> int) \<Rightarrow> nat \<Rightarrow> 'a list \<Rightarrow> 'a list" where
  "bucket_sort b nb arr = concat (map (\<lambda>d. filter (\<lambda>x. b x = int d) arr) [0..<nb])"

definition below :: "('a \<Rightarrow> int) \<Rightarrow> 'a list \<Rightarrow> nat \<Rightarrow> nat" where
  "below b arr d = length (filter (\<lambda>x. b x < int d) arr)"

definition in_buckets :: "('a \<Rightarrow> int) \<Rightarrow> nat \<Rightarrow> 'a list \<Rightarrow> bool" where
  "in_buckets b nb arr = list_all (\<lambda>x. 0 \<le> b x \<and> b x < int nb) arr"

lemma in_bucketsD: "in_buckets b nb arr \<Longrightarrow> x \<in> set arr \<Longrightarrow> 0 \<le> b x \<and> b x < int nb"
  by (simp add: in_buckets_def list_all_iff)

lemma below_0: "in_buckets b nb arr \<Longrightarrow> below b arr 0 = 0"
  by (auto simp: below_def filter_empty_conv dest: in_bucketsD)

lemma below_Suc: "below b arr (Suc d) = below b arr d + length (filter (\<lambda>x. b x = int d) arr)"
proof (induction arr)
  case Nil
  show ?case by (simp add: below_def)
next
  case (Cons x xs)
  then show ?case by (auto simp: below_def)
qed

lemma below_mono: "d \<le> e \<Longrightarrow> below b arr d \<le> below b arr e"
proof (induction e)
  case 0
  then show ?case by simp
next
  case (Suc e)
  then show ?case by (cases "d = Suc e") (auto simp: below_Suc)
qed

lemma below_top: "in_buckets b nb arr \<Longrightarrow> below b arr nb = length arr"
proof -
  assume "in_buckets b nb arr"
  then have "filter (\<lambda>x. b x < int nb) arr = arr"
    by (auto simp: filter_id_conv dest: in_bucketsD)
  then show ?thesis by (simp add: below_def)
qed

lemma below_le_length: "below b arr d \<le> length arr"
  by (simp add: below_def)

lemma tally_eq:
  "i \<le> length arr \<Longrightarrow> in_buckets b (length cnt) arr \<Longrightarrow>
   \<exists>cnt'. tally b arr (length arr) i cnt = Some cnt' \<and> length cnt' = length cnt \<and>
     (\<forall>d<length cnt. cnt' ! d = cnt ! d + length (filter (\<lambda>x. b x = int d) (drop i arr)))"
proof (induction b arr "length arr" i cnt rule: tally.induct)
  case (1 b arr i cnt)
  show ?case
  proof (cases "i < length arr")
    case False
    then show ?thesis using "1.prems" by (subst tally.simps) simp
  next
    case True
    define d where "d = b (arr ! i)"
    have rng: "0 \<le> d \<and> d < int (length cnt)"
      using True "1.prems"(2) unfolding d_def by (intro in_bucketsD[of b _ arr]) auto
    let ?c = "cnt[nat d := cnt ! nat d + 1]"
    have unf: "tally b arr (length arr) i cnt = tally b arr (length arr) (i + 1) ?c"
      using True rng by (subst tally.simps) (simp add: d_def Let_def)
    have "\<exists>cnt'. tally b arr (length arr) (i + 1) ?c = Some cnt' \<and> length cnt' = length ?c \<and>
        (\<forall>e<length ?c. cnt' ! e = ?c ! e + length (filter (\<lambda>x. b x = int e) (drop (i + 1) arr)))"
      using "1.hyps"[OF True d_def rng] True "1.prems" by simp
    then obtain cnt' where c: "tally b arr (length arr) (i + 1) ?c = Some cnt'" "length cnt' = length cnt"
      "\<forall>e<length cnt. cnt' ! e = ?c ! e + length (filter (\<lambda>x. b x = int e) (drop (i + 1) arr))"
      by auto
    have dr: "drop i arr = arr ! i # drop (i + 1) arr"
      using True by (simp add: Cons_nth_drop_Suc)
    have "\<forall>e<length cnt. cnt' ! e = cnt ! e + length (filter (\<lambda>x. b x = int e) (drop i arr))"
    proof (intro allI impI)
      fix e assume e: "e < length cnt"
      show "cnt' ! e = cnt ! e + length (filter (\<lambda>x. b x = int e) (drop i arr))"
      proof (cases "e = nat d")
        case True
        then have "b (arr ! i) = int e" using rng d_def by simp
        then show ?thesis using c(3) e True by (simp add: dr)
      next
        case False
        then have "b (arr ! i) \<noteq> int e" using rng d_def by auto
        then show ?thesis using c(3) e False by (simp add: dr)
      qed
    qed
    then show ?thesis using c unf by simp
  qed
qed

lemma cumulate_eq:
  "1 \<le> i \<Longrightarrow> i \<le> n \<Longrightarrow> n = length cnt \<Longrightarrow>
   (\<forall>d<i. cnt ! d = below b arr (Suc d)) \<Longrightarrow>
   (\<forall>d. i \<le> d \<and> d < n \<longrightarrow> cnt ! d = length (filter (\<lambda>x. b x = int d) arr)) \<Longrightarrow>
   length (cumulate cnt n i) = n \<and> (\<forall>d<n. cumulate cnt n i ! d = below b arr (Suc d))"
proof (induction cnt n i rule: cumulate.induct)
  case (1 cnt n i)
  show ?case
  proof (cases "i < n")
    case False
    then have "i = n" using "1.prems" by simp
    then show ?thesis using "1.prems" by (subst (1 2) cumulate.simps) simp
  next
    case True
    let ?c = "cnt[i := cnt ! i + cnt ! (i - 1)]"
    have unf: "cumulate cnt n i = cumulate ?c n (i + 1)"
      using True by (subst cumulate.simps) simp
    have ci: "?c ! i = below b arr (Suc i)"
    proof -
      have "cnt ! (i - 1) = below b arr (Suc (i - 1))" using "1.prems"(1,4) by simp
      then have "cnt ! (i - 1) = below b arr i" using "1.prems"(1) by simp
      moreover have "cnt ! i = length (filter (\<lambda>x. b x = int i) arr)" using "1.prems"(5) True by simp
      ultimately show ?thesis using True "1.prems"(3) by (simp add: below_Suc)
    qed
    have a: "\<forall>d<i + 1. ?c ! d = below b arr (Suc d)"
      using ci "1.prems"(4) True "1.prems"(3) by (auto simp: less_Suc_eq nth_list_update)
    have b: "\<forall>d. i + 1 \<le> d \<and> d < n \<longrightarrow> ?c ! d = length (filter (\<lambda>x. b x = int d) arr)"
      using "1.prems"(5) by (auto simp: nth_list_update)
    show ?thesis
      unfolding unf using "1.IH"[OF True _ _ _ a b] True "1.prems"(3) by simp
  qed
qed

lemma tally_cumulate:
  assumes "in_buckets b nb arr"
  shows "\<exists>cnt. tally b arr (length arr) 0 (replicate nb 0) = Some cnt \<and> length (cumulate cnt nb 1) = nb \<and>
     (\<forall>d<nb. cumulate cnt nb 1 ! d = below b arr (Suc d))"
proof -
  obtain cnt where t: "tally b arr (length arr) 0 (replicate nb 0) = Some cnt" "length cnt = nb"
    "\<forall>d<nb. cnt ! d = length (filter (\<lambda>x. b x = int d) arr)"
    using tally_eq[of 0 arr b "replicate nb 0"] assms by auto
  show ?thesis
  proof (cases "nb = 0")
    case True
    then show ?thesis using t by (subst (1 2) cumulate.simps) simp
  next
    case False
    have z: "below b arr 0 = 0" using assms by (rule below_0)
    have "length (cumulate cnt nb 1) = nb \<and> (\<forall>d<nb. cumulate cnt nb 1 ! d = below b arr (Suc d))"
      using t False z by (intro cumulate_eq) (auto simp: below_Suc)
    then show ?thesis using t by simp
  qed
qed

lemma sl_update_head: "c < h \<Longrightarrow> h \<le> length out \<Longrightarrow> sl (out[c := v]) c h = v # sl out (Suc c) h"
proof -
  assume a: "c < h" "h \<le> length out"
  have "drop c (out[c := v]) = v # drop (Suc c) out"
    using a by (simp add: drop_update_swap Cons_nth_drop_Suc[symmetric] flip: drop_Suc)
  moreover have "h - c = Suc (h - Suc c)" using a by simp
  ultimately show ?thesis by (simp add: sl_def)
qed

lemma sl_update_outside: "c < l \<or> h \<le> c \<Longrightarrow> sl (out[c := v]) l h = sl out l h"
proof (cases "c < l")
  case True
  then show ?thesis by (simp add: sl_def)
next
  case False
  assume "c < l \<or> h \<le> c"
  then have hc: "h \<le> c" using False by simp
  have "drop l (out[c := v]) = (drop l out)[c - l := v]"
    using False by (simp add: drop_update_swap)
  moreover have "h - l \<le> c - l" using hc by simp
  ultimately show ?thesis by (simp add: sl_def)
qed

lemma place_eq:
  "in_buckets b nb arr \<Longrightarrow> i < int (length arr) \<Longrightarrow> - 1 \<le> i \<Longrightarrow> length cnt = nb \<Longrightarrow> length out = length arr \<Longrightarrow>
     (\<forall>d<nb. cnt ! d = below b arr d + length (filter (\<lambda>x. b x = int d) (take (nat (i + 1)) arr))) \<Longrightarrow>
     (\<forall>d<nb. sl out (cnt ! d) (below b arr (Suc d)) = map Some (filter (\<lambda>x. b x = int d) (drop (nat (i + 1)) arr))) \<Longrightarrow>
     \<exists>out'. place b arr i cnt out = Some out' \<and> length out' = length arr \<and>
       (\<forall>d<nb. sl out' (below b arr d) (below b arr (Suc d)) = map Some (filter (\<lambda>x. b x = int d) arr))"
proof (induction b arr i cnt out rule: place.induct)
  case (1 b arr i cnt out)
  note rng = "1.prems"(1)
  show ?case
  proof (cases "i \<ge> 0")
    case False
    then have i: "i = - 1" using "1.prems" by simp
    have "place b arr i cnt out = Some out"
      using False by (subst place.simps) simp
    then show ?thesis using "1.prems" i by simp
  next
    case True
    define x where "x = arr ! nat i"
    define e where "e = nat (b x)"
    have ni: "nat i < length arr" using True "1.prems" by simp
    have xin: "x \<in> set arr" using ni by (simp add: x_def)
    have bx: "0 \<le> b x" "b x < int nb" "b x = int e" "e < nb"
      using in_bucketsD[OF rng xin] by (auto simp: e_def)
    have tk: "take (nat (i + 1)) arr = take (nat i) arr @ [x]"
      using True ni by (simp add: nat_add_distrib take_Suc_conv_app_nth x_def)
    have dr: "drop (nat i) arr = x # drop (nat (i + 1)) arr"
      using True ni by (simp add: nat_add_distrib Cons_nth_drop_Suc x_def)
    define c where "c = below b arr e + length (filter (\<lambda>y. b y = int e) (take (nat i) arr))"
    have ce: "cnt ! e = Suc c"
      using "1.prems"(6) bx by (simp add: tk c_def)
    have "length (filter (\<lambda>y. b y = int e) (take (nat i) arr @ [x])) \<le> length (filter (\<lambda>y. b y = int e) arr)"
      unfolding tk[symmetric] by (metis append_take_drop_id filter_append length_append le_add1)
    then have cb: "Suc c \<le> below b arr (Suc e)"
      using bx by (simp add: c_def below_Suc)
    have cl: "c < length out"
      using cb below_le_length[of b arr "Suc e"] "1.prems"(5) by simp
    let ?cnt = "cnt[nat (b x) := nat (int (cnt ! nat (b x)) - 1)]"
    let ?out = "out[nat (int (cnt ! nat (b x)) - 1) := Some x]"
    have c': "nat (int (cnt ! nat (b x)) - 1) = c" using ce by (simp add: e_def)
    have unf: "place b arr i cnt out = place b arr (i - 1) ?cnt ?out"
      using True bx "1.prems"(4) ce cl
      by (subst place.simps) (simp add: Let_def x_def[symmetric] e_def[symmetric])
    have cnt_eq: "?cnt = cnt[e := c]" and out_eq: "?out = out[c := Some x]"
      using c' by (simp_all add: e_def)
    have p5: "\<forall>d<nb. ?cnt ! d = below b arr d + length (filter (\<lambda>y. b y = int d) (take (nat (i - 1 + 1)) arr))"
    proof (intro allI impI)
      fix d assume d: "d < nb"
      show "?cnt ! d = below b arr d + length (filter (\<lambda>y. b y = int d) (take (nat (i - 1 + 1)) arr))"
      proof (cases "d = e")
        case True
        then show ?thesis unfolding cnt_eq using d "1.prems"(4) by (simp add: c_def)
      next
        case False
        then have "b x \<noteq> int d" using bx by simp
        then show ?thesis unfolding cnt_eq using False d "1.prems"(6) by (simp add: tk)
      qed
    qed
    have p6: "\<forall>d<nb. sl ?out (?cnt ! d) (below b arr (Suc d)) =
         map Some (filter (\<lambda>y. b y = int d) (drop (nat (i - 1 + 1)) arr))"
    proof (intro allI impI)
      fix d assume d: "d < nb"
      show "sl ?out (?cnt ! d) (below b arr (Suc d)) = map Some (filter (\<lambda>y. b y = int d) (drop (nat (i - 1 + 1)) arr))"
      proof (cases "d = e")
        case True
        have "sl (out[c := Some x]) c (below b arr (Suc e)) = Some x # sl out (Suc c) (below b arr (Suc e))"
          using cb below_le_length[of b arr "Suc e"] "1.prems"(5) by (intro sl_update_head) auto
        moreover have "sl out (Suc c) (below b arr (Suc e)) = map Some (filter (\<lambda>y. b y = int e) (drop (nat (i + 1)) arr))"
          using "1.prems"(7) bx ce by auto
        ultimately show ?thesis
          unfolding cnt_eq out_eq using True d "1.prems"(4) bx by (simp add: dr)
      next
        case False
        have nb: "b x \<noteq> int d" using False bx by simp
        have cd: "cnt ! d = below b arr d + length (filter (\<lambda>y. b y = int d) (take (nat i) arr))"
          using "1.prems"(6) d nb by (simp add: tk)
        have out: "c < cnt ! d \<or> below b arr (Suc d) \<le> c"
        proof (cases "d < e")
          case True
          then have "below b arr (Suc d) \<le> below b arr e" by (intro below_mono) simp
          then show ?thesis by (simp add: c_def)
        next
          case False
          then have "Suc e \<le> d" using \<open>d \<noteq> e\<close> by simp
          then have "below b arr (Suc e) \<le> below b arr d" by (rule below_mono)
          then show ?thesis using cb cd by simp
        qed
        have "sl (out[c := Some x]) (cnt ! d) (below b arr (Suc d)) = sl out (cnt ! d) (below b arr (Suc d))"
          using out by (rule sl_update_outside)
        then show ?thesis
          unfolding cnt_eq out_eq using False d "1.prems"(7) nb by (simp add: dr)
      qed
    qed
    have d1: "0 \<le> b (arr ! nat i) \<and> b (arr ! nat i) < int (length cnt)"
      using bx "1.prems"(4) by (simp add: x_def)
    have d2: "0 \<le> int (cnt ! nat (b (arr ! nat i))) - 1 \<and> int (cnt ! nat (b (arr ! nat i))) - 1 < int (length out)"
      using ce cl by (simp add: x_def[symmetric] e_def[symmetric])
    have "\<exists>out'. place b arr (i - 1) ?cnt ?out = Some out' \<and> length out' = length arr \<and>
       (\<forall>d<nb. sl out' (below b arr d) (below b arr (Suc d)) = map Some (filter (\<lambda>x. b x = int d) arr))"
      unfolding x_def
      apply (rule "1.IH"[OF True refl d1 refl d2 rng])
      using True "1.prems" p5 p6 by (simp_all add: x_def)
    then show ?thesis unfolding unf .
  qed
qed

lemma take_below_Suc:
  "take (below b arr (Suc m)) out = take (below b arr m) out @ sl out (below b arr m) (below b arr (Suc m))"
proof -
  have "below b arr m \<le> below b arr (Suc m)" by (intro below_mono) simp
  then have "take (below b arr (Suc m)) out = take (below b arr m + (below b arr (Suc m) - below b arr m)) out"
    by simp
  also have "\<dots> = take (below b arr m) out @ take (below b arr (Suc m) - below b arr m) (drop (below b arr m) out)"
    by (rule take_add)
  finally show ?thesis by (simp add: sl_def)
qed

lemma segments_concat:
  assumes "in_buckets b nb arr"
    and "\<forall>d<nb. sl out (below b arr d) (below b arr (Suc d)) = map Some (filter (\<lambda>x. b x = int d) arr)"
  shows "m \<le> nb \<Longrightarrow> take (below b arr m) out = map Some (bucket_sort b m arr)"
proof (induction m)
  case 0
  then show ?case using below_0[OF assms(1)] by (simp add: bucket_sort_def)
next
  case (Suc m)
  then show ?case using assms(2) by (simp add: take_below_Suc bucket_sort_def)
qed

lemma mset_bucket_sort_below:
  "\<forall>x\<in>set arr. 0 \<le> b x \<Longrightarrow> mset (bucket_sort b m arr) = mset (filter (\<lambda>x. b x < int m) arr)"
proof (induction m)
  case 0
  then show ?case by (auto simp: bucket_sort_def filter_empty_conv)
next
  case (Suc m)
  have "mset (filter (\<lambda>x. b x < int (Suc m)) arr) =
        mset (filter (\<lambda>x. b x < int m) arr) + mset (filter (\<lambda>x. b x = int m) arr)"
    by (induction arr) auto
  then show ?case using Suc by (simp add: bucket_sort_def)
qed

lemma mset_bucket_sort: "in_buckets b nb arr \<Longrightarrow> mset (bucket_sort b nb arr) = mset arr"
proof -
  assume a: "in_buckets b nb arr"
  then have "filter (\<lambda>x. b x < int nb) arr = arr"
    by (auto simp: filter_id_conv dest: in_bucketsD)
  moreover have "\<forall>x\<in>set arr. 0 \<le> b x" using a by (auto dest: in_bucketsD)
  ultimately show ?thesis by (simp add: mset_bucket_sort_below)
qed

lemma set_bucket_sort_below: "set (bucket_sort b m arr) = {x \<in> set arr. 0 \<le> b x \<and> b x < int m}"
proof (induction m)
  case 0
  show ?case by (simp add: bucket_sort_def)
next
  case (Suc m)
  then show ?case by (auto simp: bucket_sort_def)
qed

lemma sorted_bucket_sort: "sorted (map b (bucket_sort b m arr))"
proof (induction m)
  case 0
  show ?case by (simp add: bucket_sort_def)
next
  case (Suc m)
  have e: "bucket_sort b (Suc m) arr = bucket_sort b m arr @ filter (\<lambda>x. b x = int m) arr"
    by (simp add: bucket_sort_def)
  have "map b (filter (\<lambda>x. b x = int m) arr) = replicate (length (filter (\<lambda>x. b x = int m) arr)) (int m)"
    by (induction arr) auto
  then have s: "sorted (map b (filter (\<lambda>x. b x = int m) arr))" by simp
  show ?case
    unfolding e using Suc s by (auto simp: sorted_append set_bucket_sort_below)
qed

lemma filter_bucket_sort:
  "filter (\<lambda>x. b x = v) (bucket_sort b m arr) = (if 0 \<le> v \<and> v < int m then filter (\<lambda>x. b x = v) arr else [])"
proof (induction m)
  case 0
  show ?case by (auto simp: bucket_sort_def)
next
  case (Suc m)
  have e: "bucket_sort b (Suc m) arr = bucket_sort b m arr @ filter (\<lambda>x. b x = int m) arr"
    by (simp add: bucket_sort_def)
  have f: "filter (\<lambda>x. b x = v) (filter (\<lambda>x. b x = int m) arr) = (if v = int m then filter (\<lambda>x. b x = v) arr else [])"
    by (induction arr) auto
  show ?case unfolding e using Suc f by auto
qed

lemma bucket_sort_sort_key: "in_buckets b nb arr \<Longrightarrow> bucket_sort b nb arr = sort_key b arr"
proof (rule sym, rule properties_for_sort_key)
  assume a: "in_buckets b nb arr"
  show "mset (bucket_sort b nb arr) = mset arr" using a by (rule mset_bucket_sort)
  show "sorted (map b (bucket_sort b nb arr))" by (rule sorted_bucket_sort)
  fix k assume "k \<in> set (bucket_sort b nb arr)"
  then have k: "0 \<le> b k \<and> b k < int nb" by (simp add: set_bucket_sort_below)
  have "filter (\<lambda>x. b x = b k) (bucket_sort b nb arr) = filter (\<lambda>x. b x = b k) arr"
    using k by (simp add: filter_bucket_sort)
  moreover have "(\<lambda>x. b k = b x) = (\<lambda>x. b x = b k)" by auto
  ultimately show "filter (\<lambda>x. b k = b x) (bucket_sort b nb arr) = filter (\<lambda>x. b k = b x) arr"
    by simp
qed

lemma copy_back_Some: "length ys = length arr \<Longrightarrow> copy_back arr (map Some ys) (length arr) = Some ys"
  by (simp add: copy_back_def list_all_iff comp_def)

text \<open>The three loops, run on an array whose buckets are all in range, sort it stably by bucket.\<close>

lemma counting_pass:
  assumes "in_buckets b nb arr"
  shows "\<exists>cnt out. tally b arr (length arr) 0 (replicate nb 0) = Some cnt \<and>
      place b arr (int (length arr) - 1) (cumulate cnt nb 1) (replicate (length arr) None) = Some out \<and>
      copy_back arr out (length arr) = Some (sort_key b arr)"
proof -
  obtain cnt where t: "tally b arr (length arr) 0 (replicate nb 0) = Some cnt" "length (cumulate cnt nb 1) = nb"
     "\<forall>d<nb. cumulate cnt nb 1 ! d = below b arr (Suc d)"
    using tally_cumulate[OF assms] by auto
  have "\<exists>out'. place b arr (int (length arr) - 1) (cumulate cnt nb 1) (replicate (length arr) None) = Some out' \<and>
       length out' = length arr \<and>
       (\<forall>d<nb. sl out' (below b arr d) (below b arr (Suc d)) = map Some (filter (\<lambda>x. b x = int d) arr))"
    using assms t by (intro place_eq) (auto simp: below_Suc)
  then obtain out where p: "place b arr (int (length arr) - 1) (cumulate cnt nb 1) (replicate (length arr) None) = Some out"
    "length out = length arr"
    "\<forall>d<nb. sl out (below b arr d) (below b arr (Suc d)) = map Some (filter (\<lambda>x. b x = int d) arr)"
    by auto
  have "take (below b arr nb) out = map Some (bucket_sort b nb arr)"
    using segments_concat[OF assms p(3)] by simp
  then have out: "out = map Some (sort_key b arr)"
    using below_top[OF assms] p(2) bucket_sort_sort_key[OF assms] by simp
  have "copy_back arr out (length arr) = Some (sort_key b arr)"
    unfolding out by (rule copy_back_Some) simp
  then show ?thesis using t p by auto
qed

section \<open>Radix sort and counting sort\<close>

lemma sdiv_nonneg: "0 \<le> k \<Longrightarrow> 0 < l \<Longrightarrow> k sdiv l = k div (l::int)"
  by (simp add: signed_divide_int_def sgn_if)

lemma smod_nonneg: "0 \<le> k \<Longrightarrow> 0 < l \<Longrightarrow> k smod l = k mod (l::int)"
  by (simp add: signed_modulo_int_def sgn_if)

lemma digit_eq: "0 \<le> key x \<Longrightarrow> 0 < exp \<Longrightarrow> digit key exp x = (key x div exp) mod 10"
  by (simp add: digit_def RADIX_def sdiv_nonneg smod_nonneg pos_imp_zdiv_nonneg_iff)

lemma digit_in_buckets:
  "\<forall>x\<in>set arr. 0 \<le> key x \<Longrightarrow> 0 < exp \<Longrightarrow> in_buckets (digit key exp) 10 arr"
  by (auto simp: in_buckets_def list_all_iff digit_eq)

lemma counting_sort_by_digit_eq:
  assumes "\<forall>x\<in>set arr. 0 \<le> key x" "0 < exp"
  shows "counting_sort_by_digit key h arr (length arr) exp =
     Some (snd (alloc h), if fst (alloc h) then sort_key (digit key exp) arr else arr)"
proof -
  from counting_pass[OF digit_in_buckets[OF assms]]
  obtain cnt out where "tally (digit key exp) arr (length arr) 0 (replicate 10 0) = Some cnt"
      "place (digit key exp) arr (int (length arr) - 1) (cumulate cnt 10 1) (replicate (length arr) None) = Some out"
      "copy_back arr out (length arr) = Some (sort_key (digit key exp) arr)"
    by auto
  then show ?thesis using assms(2)
    by (auto simp: counting_sort_by_digit_def RADIX_def split: prod.splits)
qed

lemma find_max_loop_props:
  "i \<le> length arr \<Longrightarrow>
     mx \<le> find_max_loop key arr (length arr) i mx \<and>
     (\<forall>x\<in>set (drop i arr). key x \<le> find_max_loop key arr (length arr) i mx) \<and>
     (find_max_loop key arr (length arr) i mx = mx \<or> find_max_loop key arr (length arr) i mx \<in> key ` set (drop i arr))"
proof (induction key arr "length arr" i mx rule: find_max_loop.induct)
  case (1 key arr i mx)
  show ?case
  proof (cases "i < length arr")
    case False
    then show ?thesis using "1.prems" by (subst (1 2 3 4) find_max_loop.simps) simp
  next
    case True
    define mx' where "mx' = (if key (arr ! i) > mx then key (arr ! i) else mx)"
    have unf: "find_max_loop key arr (length arr) i mx = find_max_loop key arr (length arr) (i + 1) mx'"
      using True by (subst find_max_loop.simps) (simp add: mx'_def)
    have dr: "drop i arr = arr ! i # drop (i + 1) arr"
      using True by (simp add: Cons_nth_drop_Suc)
    have ih: "mx' \<le> find_max_loop key arr (length arr) (i + 1) mx' \<and>
     (\<forall>x\<in>set (drop (i + 1) arr). key x \<le> find_max_loop key arr (length arr) (i + 1) mx') \<and>
     (find_max_loop key arr (length arr) (i + 1) mx' = mx' \<or>
      find_max_loop key arr (length arr) (i + 1) mx' \<in> key ` set (drop (i + 1) arr))"
      using "1.hyps"[OF True] True by (simp add: mx'_def)
    have m: "mx \<le> mx'" "key (arr ! i) \<le> mx'" "mx' = mx \<or> mx' = key (arr ! i)"
      by (auto simp: mx'_def)
    show ?thesis unfolding unf dr using ih m by auto
  qed
qed

lemma find_max_props:
  assumes "0 < length arr"
  shows "\<forall>x\<in>set arr. key x \<le> find_max key arr (length arr)"
    and "find_max key arr (length arr) \<in> key ` set arr"
proof -
  have dr: "arr = arr ! 0 # drop 1 arr"
    using assms by (cases arr) auto
  note p = find_max_loop_props[of 1 arr "key (arr ! 0)" key]
  have s: "set arr = insert (arr ! 0) (set (drop 1 arr))"
    using dr by (metis list.simps(15))
  have one: "1 \<le> length arr" using assms by (cases arr) auto
  show "\<forall>x\<in>set arr. key x \<le> find_max key arr (length arr)"
    unfolding find_max_def using p[OF one] by (subst s) auto
  show "find_max key arr (length arr) \<in> key ` set arr"
    unfolding find_max_def using p[OF one] by (subst s) auto
qed

lemma wrap32_id: "- 2147483648 \<le> x \<Longrightarrow> x < 2147483648 \<Longrightarrow> wrap32 x = x"
  by (simp add: wrap32_def)

lemma sort_key_cong_set: "\<forall>x\<in>set xs. f x = g x \<Longrightarrow> sort_key f xs = sort_key g xs"
proof (rule properties_for_sort_key)
  assume a: "\<forall>x\<in>set xs. f x = g x"
  show "mset (sort_key g xs) = mset xs" by simp
  have m: "map f (sort_key g xs) = map g (sort_key g xs)"
    using a by (intro map_cong) auto
  show "sorted (map f (sort_key g xs))" unfolding m by (rule sorted_sort_key)
  fix k assume k: "k \<in> set (sort_key g xs)"
  have "filter (\<lambda>x. f k = f x) (sort_key g xs) = filter (\<lambda>x. g x = g k) (sort_key g xs)"
    using a k by (intro filter_cong) auto
  also have "\<dots> = filter (\<lambda>x. g x = g k) xs" by (rule sort_key_stable)
  also have "\<dots> = filter (\<lambda>x. f k = f x) xs"
    using a k by (intro filter_cong) auto
  finally show "filter (\<lambda>x. f k = f x) (sort_key g xs) = filter (\<lambda>x. f k = f x) xs" .
qed

lemma sorted_lex:
  "sorted (map d ys) \<Longrightarrow> (\<forall>v. sorted (map m (filter (\<lambda>x. d x = v) ys))) \<Longrightarrow>
   (\<forall>x\<in>set ys. 0 \<le> m x \<and> m x < (P::int)) \<Longrightarrow> sorted (map (\<lambda>x. d x * P + m x) (ys::'a list))"
proof (induction ys)
  case Nil
  show ?case by simp
next
  case (Cons y ys)
  have P: "0 < P" using Cons.prems(3) by force
  have tl: "\<forall>v. sorted (map m (filter (\<lambda>x. d x = v) ys))"
  proof
    fix v
    from Cons.prems(2) have "sorted (map m (filter (\<lambda>x. d x = v) (y # ys)))" by blast
    then show "sorted (map m (filter (\<lambda>x. d x = v) ys))" by (cases "d y = v") simp_all
  qed
  have ih: "sorted (map (\<lambda>x. d x * P + m x) ys)"
    using Cons.IH Cons.prems tl by simp
  have "\<forall>z\<in>set ys. d y * P + m y \<le> d z * P + m z"
  proof
    fix z assume z: "z \<in> set ys"
    have dyz: "d y \<le> d z" using Cons.prems(1) z by auto
    show "d y * P + m y \<le> d z * P + m z"
    proof (cases "d y = d z")
      case True
      from Cons.prems(2) have "sorted (map m (filter (\<lambda>x. d x = d y) (y # ys)))" by blast
      then have "m y \<le> m z" using z True by auto
      then show ?thesis using True by simp
    next
      case False
      then have "d y + 1 \<le> d z" using dyz by simp
      then have "(d y + 1) * P \<le> d z * P" using P by (intro mult_right_mono) auto
      moreover have "m y < P" "0 \<le> m z" using Cons.prems(3) z by auto
      ultimately show ?thesis by (simp add: algebra_simps)
    qed
  qed
  then show ?case using ih by simp
qed

lemma sort_key_compose:
  assumes "\<forall>x\<in>set xs. 0 \<le> m x \<and> m x < (P::int)"
  shows "sort_key d (sort_key m xs) = sort_key (\<lambda>x. d x * P + m x) xs"
proof (rule sym, rule properties_for_sort_key)
  let ?ys = "sort_key d (sort_key m xs)"
  show "mset ?ys = mset xs" by simp
  have r: "\<forall>x\<in>set ?ys. 0 \<le> m x \<and> m x < P" using assms by simp
  have "\<forall>v. sorted (map m (filter (\<lambda>x. d x = v) ?ys))"
    by (simp add: sort_key_stable sorted_filter)
  then show "sorted (map (\<lambda>x. d x * P + m x) ?ys)"
    using r by (intro sorted_lex) simp_all
  fix k assume "k \<in> set ?ys"
  then have k: "0 \<le> m k \<and> m k < P" using assms by simp
  have eq: "\<And>x. x \<in> set xs \<Longrightarrow> (d k * P + m k = d x * P + m x) = (d x = d k \<and> m x = m k)"
  proof -
    fix x assume "x \<in> set xs"
    then have x: "0 \<le> m x \<and> m x < P" using assms by simp
    show "(d k * P + m k = d x * P + m x) = (d x = d k \<and> m x = m k)"
    proof
      assume e: "d k * P + m k = d x * P + m x"
      have "(d k * P + m k) div P = d k" "(d x * P + m x) div P = d x"
        using k x by simp_all
      then have dd: "d x = d k" using e by simp
      then show "d x = d k \<and> m x = m k" using e by simp
    qed auto
  qed
  have "filter (\<lambda>x. d k * P + m k = d x * P + m x) ?ys = filter (\<lambda>x. d x = d k \<and> m x = m k) ?ys"
    using eq by (intro filter_cong) auto
  also have "\<dots> = filter (\<lambda>x. m x = m k) (filter (\<lambda>x. d x = d k) ?ys)"
    by (simp add: conj_commute)
  also have "\<dots> = filter (\<lambda>x. m x = m k) (filter (\<lambda>x. d x = d k) (sort_key m xs))"
    by (simp only: sort_key_stable)
  also have "\<dots> = filter (\<lambda>x. d x = d k) (filter (\<lambda>x. m x = m k) (sort_key m xs))"
    by (simp add: conj_commute)
  also have "\<dots> = filter (\<lambda>x. d x = d k) (filter (\<lambda>x. m x = m k) xs)"
    by (simp only: sort_key_stable)
  also have "\<dots> = filter (\<lambda>x. d x = d k \<and> m x = m k) xs"
    by (simp add: conj_commute)
  also have "\<dots> = filter (\<lambda>x. d k * P + m k = d x * P + m x) xs"
    using eq by (intro filter_cong) auto
  finally show "filter (\<lambda>x. d k * P + m k = d x * P + m x) ?ys
      = filter (\<lambda>x. d k * P + m k = d x * P + m x) xs" .
qed

lemma radix_sort_loop_step:
  assumes "\<forall>x\<in>set ys. 0 \<le> key x" "0 < exp" "0 \<le> mx"
  shows "radix_sort_loop key h ys (length ys) mx exp =
     (if exp \<le> mx
      then (if exp * 10 \<le> 2147483647
            then radix_sort_loop key (snd (alloc h)) (if fst (alloc h) then sort_key (digit key exp) ys else ys)
                   (length ys) mx (exp * 10)
            else None)
      else Some (h, ys))"
proof -
  have c: "(0 < mx sdiv exp) = (exp \<le> mx)"
    using assms(2,3) by (simp add: sdiv_nonneg pos_imp_zdiv_pos_iff)
  have i: "in_int (exp * 10) = (exp * 10 \<le> 2147483647)"
    using assms(2) by (auto simp: in_int_def INT_MAX_def)
  show ?thesis
    using assms(2) c i
    by (subst radix_sort_loop.simps)
       (simp add: counting_sort_by_digit_eq[OF assms(1,2)] RADIX_def)
qed

lemma digit_compose:
  fixes k :: int
  assumes "0 \<le> k"
  shows "(k div 10 ^ p mod 10) * 10 ^ p + k mod 10 ^ p = k mod 10 ^ Suc p"
proof -
  have "k mod (10 ^ p * 10) = 10 ^ p * (k div 10 ^ p mod 10) + k mod 10 ^ p"
    by (rule zmod_zmult2_eq) simp
  then show ?thesis by (simp add: mult.commute)
qed

lemma radix_sort_loop_main:
  "p \<le> 9 \<Longrightarrow> 0 \<le> mx \<Longrightarrow> mx < 1000000000 \<Longrightarrow> \<forall>x\<in>set ys. 0 \<le> key x \<and> key x \<le> mx \<Longrightarrow>
   \<exists>h' r. radix_sort_loop key h ys (length ys) mx (10 ^ p) = Some (h', r) \<and> mset r = mset ys \<and>
      (\<forall>arr. all_succeed h \<and> ys = sort_key (\<lambda>x. key x mod 10 ^ p) arr \<longrightarrow> all_succeed h' \<and> r = sort_key key arr)"
proof (induction "9 - p" arbitrary: p h ys)
  case 0
  then have p: "p = 9" by simp
  have k0: "\<forall>x\<in>set ys. 0 \<le> key x" using "0.prems" by auto
  have False: "\<not> (10::int) ^ p \<le> mx" using "0.prems"(3) by (simp add: p)
  have "sort_key (\<lambda>x. key x mod 10 ^ p) arr = sort_key key arr"
    if "ys = sort_key (\<lambda>x. key x mod 10 ^ p) arr" for arr
  proof (rule sort_key_cong_set)
    have "set arr = set ys" using that by simp
    then show "\<forall>x\<in>set arr. key x mod 10 ^ p = key x" using "0.prems"(4) False by auto
  qed
  then show ?case
    using False "0.prems" by (subst radix_sort_loop_step[OF k0]) auto
next
  case (Suc n)
  then have p: "p < 9" "n = 9 - Suc p" by simp_all
  have k0: "\<forall>x\<in>set ys. 0 \<le> key x" using Suc.prems by auto
  show ?case
  proof (cases "(10::int) ^ p \<le> mx")
    case False
    have "sort_key (\<lambda>x. key x mod 10 ^ p) arr = sort_key key arr"
      if "ys = sort_key (\<lambda>x. key x mod 10 ^ p) arr" for arr
    proof (rule sort_key_cong_set)
      have "set arr = set ys" using that by simp
      then show "\<forall>x\<in>set arr. key x mod 10 ^ p = key x" using Suc.prems(4) False by auto
    qed
    then show ?thesis
      using False Suc.prems by (subst radix_sort_loop_step[OF k0]) auto
  next
    case True
    define h1 where "h1 = snd (alloc h)"
    define ys1 where "ys1 = (if fst (alloc h) then sort_key (digit key (10 ^ p)) ys else ys)"
    have s1: "mset ys1 = mset ys" "length ys1 = length ys" "set ys1 = set ys"
      by (auto simp: ys1_def)
    have "(10::int) ^ Suc p \<le> 10 ^ 9" using p by (intro power_increasing) auto
    then have "(10::int) ^ Suc p \<le> 1000000000" by (simp del: power_Suc)
    then have w: "(10::int) ^ Suc p \<le> 2147483647" by linarith
    have e10: "(10::int) ^ p * 10 = 10 ^ Suc p" by simp
    have st: "radix_sort_loop key h ys (length ys) mx (10 ^ p)
       = radix_sort_loop key h1 ys1 (length ys1) mx (10 ^ Suc p)"
      using True Suc.prems(2) w
      by (subst radix_sort_loop_step[OF k0]) (simp_all add: h1_def ys1_def e10 del: power_Suc)
    have k1: "\<forall>x\<in>set ys1. 0 \<le> key x \<and> key x \<le> mx" using Suc.prems(4) s1 by simp
    have sp: "Suc p \<le> 9" using p by simp
    obtain h' r where t: "radix_sort_loop key h1 ys1 (length ys1) mx (10 ^ Suc p) = Some (h', r)"
      "mset r = mset ys1"
      "\<forall>arr. all_succeed h1 \<and> ys1 = sort_key (\<lambda>x. key x mod 10 ^ Suc p) arr \<longrightarrow> all_succeed h' \<and> r = sort_key key arr"
      using Suc.hyps(1)[OF p(2) sp Suc.prems(2,3) k1, of h1] by auto
    have "all_succeed h' \<and> r = sort_key key arr"
      if a: "all_succeed h" and y: "ys = sort_key (\<lambda>x. key x mod 10 ^ p) arr" for arr
    proof -
      have sa: "set arr = set ys" using y by simp
      have rng: "\<forall>x\<in>set arr. 0 \<le> key x mod 10 ^ p \<and> key x mod 10 ^ p < 10 ^ p" by simp
      have "ys1 = sort_key (digit key (10 ^ p)) (sort_key (\<lambda>x. key x mod 10 ^ p) arr)"
        using alloc_all_succeed[OF a] by (simp add: ys1_def y)
      also have "\<dots> = sort_key (\<lambda>x. digit key (10 ^ p) x * 10 ^ p + key x mod 10 ^ p) arr"
        by (rule sort_key_compose[OF rng])
      also have "\<dots> = sort_key (\<lambda>x. key x mod 10 ^ Suc p) arr"
      proof (rule sort_key_cong_set, rule ballI)
        fix x assume "x \<in> set arr"
        then have x: "0 \<le> key x" using Suc.prems(4) sa by auto
        show "digit key (10 ^ p) x * 10 ^ p + key x mod 10 ^ p = key x mod 10 ^ Suc p"
          using x by (simp add: digit_eq digit_compose del: power_Suc)
      qed
      finally have e: "ys1 = sort_key (\<lambda>x. key x mod 10 ^ Suc p) arr" .
      have "all_succeed h1" unfolding h1_def using alloc_all_succeed[OF a] by simp
      then show ?thesis using t(3) e by blast
    qed
    then show ?thesis unfolding st using t s1 by auto
  qed
qed

text \<open>
  With a value of \<open>1000000000\<close> or more in the array the loop reaches the pass with
  \<open>exp = 1000000000\<close>, and the multiplication after it overflows.
\<close>

lemma radix_sort_loop_overflow:
  "p \<le> 9 \<Longrightarrow> 1000000000 \<le> mx \<Longrightarrow> \<forall>x\<in>set ys. 0 \<le> key x \<Longrightarrow>
     radix_sort_loop key h ys (length ys) mx (10 ^ p) = None"
proof (induction "9 - p" arbitrary: p h ys)
  case 0
  then have p: "p = 9" by simp
  show ?case
    using "0.prems"(2) by (subst radix_sort_loop_step[OF "0.prems"(3)]) (simp_all add: p)
next
  case (Suc n)
  then have p: "p < 9" "n = 9 - Suc p" by simp_all
  define h1 where "h1 = snd (alloc h)"
  define ys1 where "ys1 = (if fst (alloc h) then sort_key (digit key (10 ^ p)) ys else ys)"
  have s1: "length ys1 = length ys" "set ys1 = set ys" by (auto simp: ys1_def)
  have "(10::int) ^ Suc p \<le> 10 ^ 9" using p by (intro power_increasing) auto
  then have le: "(10::int) ^ Suc p \<le> 1000000000" by (simp del: power_Suc)
  then have w: "(10::int) ^ Suc p \<le> 2147483647" by linarith
  have e10: "(10::int) ^ p * 10 = 10 ^ Suc p" by simp
  have "(10::int) ^ p \<le> 10 ^ Suc p" by (intro power_increasing) auto
  then have e: "(10::int) ^ p \<le> mx" using le Suc.prems(2) by linarith
  have st: "radix_sort_loop key h ys (length ys) mx (10 ^ p)
       = radix_sort_loop key h1 ys1 (length ys1) mx (10 ^ Suc p)"
    using e Suc.prems(2) w
    by (subst radix_sort_loop_step[OF Suc.prems(3)]) (simp_all add: h1_def ys1_def e10 del: power_Suc)
  have k1: "\<forall>x\<in>set ys1. 0 \<le> key x" using Suc.prems(3) s1 by simp
  have sp: "Suc p \<le> 9" using p by simp
  show ?case unfolding st by (rule Suc.hyps(1)[OF p(2) sp Suc.prems(2) k1])
qed

definition int32_nonneg :: "('a \<Rightarrow> int) \<Rightarrow> 'a list \<Rightarrow> bool" where
  "int32_nonneg key arr = list_all (\<lambda>x. 0 \<le> key x \<and> key x \<le> INT_MAX) arr"

lemma int32_nonnegD: "int32_nonneg key arr \<Longrightarrow> x \<in> set arr \<Longrightarrow> 0 \<le> key x \<and> key x < 2147483648"
  by (auto simp: int32_nonneg_def list_all_iff INT_MAX_def)

lemma sort_key_short: "length arr \<le> 1 \<Longrightarrow> sort_key key arr = arr"
  by (cases arr) auto

lemma radix_sort_eq:
  assumes "int32_nonneg key arr" and "\<forall>x\<in>set arr. key x < 1000000000"
  shows "\<exists>h' r. radix_sort key h arr (length arr) = Some (h', r) \<and> mset r = mset arr \<and>
     (all_succeed h \<longrightarrow> all_succeed h' \<and> r = sort_key key arr)"
proof (cases "length arr \<le> 1")
  case True
  then show ?thesis by (simp add: radix_sort_def sort_key_short)
next
  case False
  define mx where "mx = find_max key arr (length arr)"
  have pos: "0 < length arr" using False by (cases arr) auto
  have le: "\<forall>x\<in>set arr. key x \<le> mx" unfolding mx_def by (rule find_max_props(1)[OF pos])
  have "mx \<in> key ` set arr" unfolding mx_def by (rule find_max_props(2)[OF pos])
  then have mx: "0 \<le> mx" "mx < 1000000000" using int32_nonnegD[OF assms(1)] assms(2) by auto
  have k: "\<forall>x\<in>set arr. 0 \<le> key x \<and> key x \<le> mx" using le int32_nonnegD[OF assms(1)] by auto
  obtain h' r where l: "radix_sort_loop key h arr (length arr) mx (10 ^ 0) = Some (h', r)" "mset r = mset arr"
    "\<forall>a. all_succeed h \<and> arr = sort_key (\<lambda>x. key x mod 10 ^ 0) a \<longrightarrow> all_succeed h' \<and> r = sort_key key a"
    using radix_sort_loop_main[OF _ mx k, of 0 h] by auto
  have "map (\<lambda>x. key x mod 10 ^ 0) arr = replicate (length arr) 0"
    by (induction arr) auto
  then have "sorted (map (\<lambda>x. key x mod 10 ^ 0) arr)"
    by (simp only: sorted_replicate)
  then have "arr = sort_key (\<lambda>x. key x mod 10 ^ 0) arr"
    by (rule sort_key_id_if_sorted[symmetric])
  then have "all_succeed h \<longrightarrow> all_succeed h' \<and> r = sort_key key arr" using l(3) by blast
  then show ?thesis using False l(1,2) by (simp add: radix_sort_def mx_def)
qed

lemma radix_sort_overflow:
  assumes "1 < length arr" and "\<forall>x\<in>set arr. 0 \<le> key x" and "\<exists>x\<in>set arr. 1000000000 \<le> key x"
  shows "radix_sort key h arr (length arr) = None"
proof -
  define mx where "mx = find_max key arr (length arr)"
  have pos: "0 < length arr" using assms(1) by (cases arr) auto
  have le: "\<forall>x\<in>set arr. key x \<le> mx" unfolding mx_def by (rule find_max_props(1)[OF pos])
  then have mx: "1000000000 \<le> mx" using assms(3) by fastforce
  have "radix_sort_loop key h arr (length arr) mx (10 ^ 0) = None"
    by (rule radix_sort_loop_overflow[OF _ mx assms(2)]) simp
  then show ?thesis using assms(1) by (simp add: radix_sort_def mx_def)
qed

lemma counting_sort_eq:
  assumes "int32_nonneg key arr"
  shows "\<exists>h' r. counting_sort key h arr (length arr) = Some (h', r) \<and> (r = arr \<or> r = sort_key key arr) \<and>
     (all_succeed h \<and> (\<forall>x\<in>set arr. key x < INT_MAX) \<longrightarrow> all_succeed h' \<and> r = sort_key key arr)"
proof (cases "length arr \<le> 1")
  case True
  then show ?thesis by (simp add: counting_sort_def sort_key_short)
next
  case False
  define mx where "mx = find_max key arr (length arr)"
  have pos: "0 < length arr" using False by (cases arr) auto
  have le: "\<forall>x\<in>set arr. key x \<le> mx" unfolding mx_def by (rule find_max_props(1)[OF pos])
  have mi: "mx \<in> key ` set arr" unfolding mx_def by (rule find_max_props(2)[OF pos])
  then have mx: "0 \<le> mx" "mx < 2147483648" using int32_nonnegD[OF assms] by auto
  obtain ok1 h1 where a1: "alloc h = (ok1, h1)" by (cases "alloc h")
  obtain ok2 h2 where a2: "alloc h1 = (ok2, h2)" by (cases "alloc h1")
  show ?thesis
  proof (cases "mx = 2147483647")
    case True
    have n: "wrap32 (mx + 1) = - 2147483648" by (simp add: True wrap32_def)
    have "counting_sort key h arr (length arr) = Some (h1, arr)"
      using False by (simp add: counting_sort_def Let_def mx_def[symmetric] n calloc_def a1)
    moreover have "\<not> (\<forall>x\<in>set arr. key x < INT_MAX)"
      using mi True by (force simp: INT_MAX_def)
    ultimately show ?thesis by blast
  next
    case max: False
    have n: "wrap32 (mx + 1) = mx + 1" using mx max by (intro wrap32_id) auto
    have ib: "in_buckets key (nat (mx + 1)) arr"
      using le int32_nonnegD[OF assms] by (auto simp: in_buckets_def list_all_iff)
    from counting_pass[OF ib]
    obtain cnt out where p: "tally key arr (length arr) 0 (replicate (nat (mx + 1)) 0) = Some cnt"
      "place key arr (int (length arr) - 1) (cumulate cnt (nat (mx + 1)) 1) (replicate (length arr) None) = Some out"
      "copy_back arr out (length arr) = Some (sort_key key arr)"
      by auto
    have res: "counting_sort key h arr (length arr) =
        Some (if ok1 then h2 else h1, if ok1 \<and> ok2 then sort_key key arr else arr)"
      using False mx p
      by (simp add: counting_sort_def Let_def mx_def[symmetric] n calloc_def a1 a2)
    have "ok1 \<and> ok2 \<and> all_succeed h2" if "all_succeed h"
      using alloc_all_succeed[OF that] alloc_all_succeed[of h1] a1 a2 by simp
    then show ?thesis unfolding res by auto
  qed
qed

section \<open>The functional quicksort: what it leaves untouched\<close>

text \<open>
  \<open>heap_ok m\<close>: every live block lies below \<open>fresh m\<close>.  \<open>keeps n m m'\<close>: from \<open>m\<close> to \<open>m'\<close>
  no address below \<open>n\<close> changed its block, and \<open>fresh\<close> did not go down.
\<close>

definition heap_ok :: "'a mem \<Rightarrow> bool" where
  "heap_ok m = (\<forall>p. blocks m p \<noteq> None \<longrightarrow> p < fresh m)"

definition keeps :: "nat \<Rightarrow> 'a mem \<Rightarrow> 'a mem \<Rightarrow> bool" where
  "keeps n m m' = (fresh m \<le> fresh m' \<and> (\<forall>p<n. blocks m' p = blocks m p))"

definition above :: "nat \<Rightarrow> ptr \<Rightarrow> bool" where
  "above n p = (case p of None \<Rightarrow> True | Some a \<Rightarrow> n \<le> a)"

lemma keeps_refl [simp]: "keeps n m m"
  by (simp add: keeps_def)

lemma keeps_trans: "keeps n m m' \<Longrightarrow> keeps n m' m'' \<Longrightarrow> keeps n m m''"
  by (auto simp: keeps_def)

lemma keeps_mono: "keeps n' m m' \<Longrightarrow> n \<le> n' \<Longrightarrow> keeps n m m'"
  by (auto simp: keeps_def)

lemma above_mono: "above n' p \<Longrightarrow> n \<le> n' \<Longrightarrow> above n p"
  by (auto simp: above_def split: option.splits)

lemma above_None [simp]: "above n None"
  by (simp add: above_def)

lemma store_cases:
  "store m p i v = Some m' \<Longrightarrow>
     \<exists>a cells. p = Some a \<and> blocks m a = Some cells \<and> i < length cells \<and>
       m' = m\<lparr>blocks := (blocks m)(a \<mapsto> cells[i := Some v])\<rparr>"
  by (auto simp: store_def split: option.splits if_splits)

lemma heap_okD: "heap_ok m \<Longrightarrow> blocks m p = Some y \<Longrightarrow> p < fresh m"
  by (simp add: heap_ok_def)

lemma heap_okI: "(\<And>p y. blocks m p = Some y \<Longrightarrow> p < fresh m) \<Longrightarrow> heap_ok m"
  by (auto simp: heap_ok_def)

lemma store_keeps:
  assumes "store m p i v = Some m'" "above n p" "heap_ok m"
  shows "keeps n m m' \<and> heap_ok m' \<and> fresh m' = fresh m \<and> outcomes m' = outcomes m"
proof -
  obtain a cells where a: "p = Some a" "blocks m a = Some cells" "i < length cells"
    "m' = m\<lparr>blocks := (blocks m)(a \<mapsto> cells[i := Some v])\<rparr>"
    using store_cases[OF assms(1)] by blast
  have na: "n \<le> a" using assms(2) a(1) by (simp add: above_def)
  have "keeps n m m'" using na by (simp add: keeps_def a(4))
  moreover have "heap_ok m'"
  proof (rule heap_okI)
    fix q y assume "blocks m' q = Some y"
    then have "q = a \<or> blocks m q = Some y" by (simp add: a(4) split: if_splits)
    then show "q < fresh m'" using heap_okD[OF assms(3)] a(2) by (auto simp: a(4))
  qed
  ultimately show ?thesis by (simp add: a(4))
qed

lemma free_keeps:
  assumes "above n p" "heap_ok m"
  shows "keeps n m (free m p) \<and> heap_ok (free m p) \<and> fresh (free m p) = fresh m \<and> outcomes (free m p) = outcomes m"
proof (cases p)
  case None
  then show ?thesis using assms by (simp add: free_def)
next
  case (Some a)
  have na: "n \<le> a" using assms(1) Some by (simp add: above_def)
  have "heap_ok (free m p)"
  proof (rule heap_okI)
    fix q y assume "blocks (free m p) q = Some y"
    then have "blocks m q = Some y" by (simp add: free_def Some split: if_splits)
    then show "q < fresh (free m p)" using heap_okD[OF assms(2)] by (simp add: free_def Some)
  qed
  then show ?thesis using na by (simp add: free_def Some keeps_def)
qed

lemma malloc_cases:
  "malloc m k = (p, m') \<Longrightarrow>
     (p = Some (fresh m) \<and> fst (alloc (outcomes m)) \<and>
        m' = m\<lparr>blocks := (blocks m)(fresh m \<mapsto> replicate k None), fresh := fresh m + 1,
                outcomes := snd (alloc (outcomes m))\<rparr>)
     \<or> (p = None \<and> \<not> fst (alloc (outcomes m)) \<and> m' = m\<lparr>outcomes := snd (alloc (outcomes m))\<rparr>)"
  by (auto simp: malloc_def Let_def split: prod.splits if_splits)

lemma malloc_None:
  assumes "malloc m k = (p, m')"
  shows "(p = None) = (\<not> fst (alloc (outcomes m)))" and "outcomes m' = snd (alloc (outcomes m))"
  using malloc_cases[OF assms] by auto

lemma malloc_keeps:
  assumes "malloc m k = (p, m')" "heap_ok m"
  shows "keeps (fresh m) m m' \<and> heap_ok m' \<and> above (fresh m) p \<and> fresh m' \<le> fresh m + 1"
proof -
  from malloc_cases[OF assms(1)] show ?thesis
  proof
    assume a: "p = Some (fresh m) \<and> fst (alloc (outcomes m)) \<and>
        m' = m\<lparr>blocks := (blocks m)(fresh m \<mapsto> replicate k None), fresh := fresh m + 1,
                outcomes := snd (alloc (outcomes m))\<rparr>"
    have "heap_ok m'"
    proof (rule heap_okI)
      fix q y assume "blocks m' q = Some y"
      then have "q = fresh m \<or> blocks m q = Some y" using a by (simp split: if_splits)
      then have "q \<le> fresh m" using heap_okD[OF assms(2), of q y] by auto
      then show "q < fresh m'" using a by simp
    qed
    then show ?thesis using a by (simp add: keeps_def above_def)
  next
    assume a: "p = None \<and> \<not> fst (alloc (outcomes m)) \<and> m' = m\<lparr>outcomes := snd (alloc (outcomes m))\<rparr>"
    have "heap_ok m'" using assms(2) a by (simp add: heap_ok_def)
    then show ?thesis using a by (simp add: keeps_def)
  qed
qed

lemma fill_loop_keeps:
  "fill_loop key m arr sz pivot lb eb gb i c = Some m' \<Longrightarrow> above n lb \<Longrightarrow> above n eb \<Longrightarrow> above n gb \<Longrightarrow>
     heap_ok m \<Longrightarrow> keeps n m m' \<and> heap_ok m' \<and> fresh m' = fresh m \<and> outcomes m' = outcomes m"
proof (induction key m arr sz pivot lb eb gb i c rule: fill_loop.induct)
  case (1 key m arr sz pivot lb eb gb i li ei gi)
  show ?case
  proof (cases "i < sz")
    case False
    with "1.prems"(1,5) show ?thesis by (subst (asm) fill_loop.simps) simp
  next
    case True
    obtain x where x: "load m arr i = Some x"
      using "1.prems"(1) True by (subst (asm) fill_loop.simps) (auto split: option.splits)
    consider (lt) "key x < pivot" | (eq) "\<not> key x < pivot" "key x = pivot"
      | (gt) "\<not> key x < pivot" "key x \<noteq> pivot" by blast
    then show ?thesis
    proof cases
      case lt
      obtain m1 where s: "store m lb li x = Some m1"
        and r: "fill_loop key m1 arr sz pivot lb eb gb (i + 1) (li + 1, ei, gi) = Some m'"
        using "1.prems"(1) True x lt by (subst (asm) fill_loop.simps) (auto split: option.splits)
      note k = store_keeps[OF s "1.prems"(2,5)]
      from "1.IH"(1)[OF True x lt s r "1.prems"(2,3,4)] k
      show ?thesis by (auto intro: keeps_trans)
    next
      case eq
      obtain m1 where s: "store m eb ei x = Some m1"
        and r: "fill_loop key m1 arr sz pivot lb eb gb (i + 1) (li, ei + 1, gi) = Some m'"
        using "1.prems"(1) True x eq by (subst (asm) fill_loop.simps) (auto split: option.splits)
      note k = store_keeps[OF s "1.prems"(3,5)]
      from "1.IH"(2)[OF True x eq s r "1.prems"(2,3,4)] k
      show ?thesis by (auto intro: keeps_trans)
    next
      case gt
      obtain m1 where s: "store m gb gi x = Some m1"
        and r: "fill_loop key m1 arr sz pivot lb eb gb (i + 1) (li, ei, gi + 1) = Some m'"
        using "1.prems"(1) True x gt by (subst (asm) fill_loop.simps) (auto split: option.splits)
      note k = store_keeps[OF s "1.prems"(4,5)]
      from "1.IH"(3)[OF True x gt s r "1.prems"(2,3,4)] k
      show ?thesis by (auto intro: keeps_trans)
    qed
  qed
qed

lemma copy_loop_keeps:
  "copy_loop m result src k i idx = Some (m', idx') \<Longrightarrow> above n result \<Longrightarrow> heap_ok m \<Longrightarrow>
     keeps n m m' \<and> heap_ok m' \<and> fresh m' = fresh m \<and> outcomes m' = outcomes m"
proof (induction m result src k i idx rule: copy_loop.induct)
  case (1 m result src k i idx)
  show ?case
  proof (cases "i < k")
    case False
    with "1.prems"(1,3) show ?thesis by (subst (asm) copy_loop.simps) auto
  next
    case True
    obtain x m1 where x: "load m src i = Some x" and s: "store m result idx x = Some m1"
      and r: "copy_loop m1 result src k (i + 1) (idx + 1) = Some (m', idx')"
      using "1.prems"(1) True by (subst (asm) copy_loop.simps) (auto split: option.splits)
    note k = store_keeps[OF s "1.prems"(2,3)]
    from "1.IH"[OF True x s r "1.prems"(2)] k show ?thesis by (auto intro: keeps_trans)
  qed
qed

lemma merge_arrays_keeps:
  assumes "merge_arrays m arr1 size1 arr2 size2 arr3 size3 = Some (m', r)" "heap_ok m"
  shows "keeps (fresh m) m m' \<and> heap_ok m' \<and> above (fresh m) r"
proof -
  obtain res m0 where ma: "malloc m (size1 + size2 + size3) = (res, m0)"
    by (cases "malloc m (size1 + size2 + size3)")
  note k0 = malloc_keeps[OF ma assms(2)]
  show ?thesis
  proof (cases res)
    case None
    then show ?thesis using assms(1) ma k0 by (simp add: merge_arrays_def Let_def)
  next
    case (Some a)
    obtain m1 i1 m2 i2 i3 where c1: "copy_loop m0 res arr1 size1 0 0 = Some (m1, i1)"
      and c2: "copy_loop m1 res arr2 size2 0 i1 = Some (m2, i2)"
      and c3: "copy_loop m2 res arr3 size3 0 i2 = Some (m', i3)" and rr: "r = res"
      using assms(1) ma Some by (auto simp: merge_arrays_def Let_def split: option.splits)
    have ab: "above (fresh m) res" using k0 by simp
    note k1 = copy_loop_keeps[OF c1 ab]
    note k2 = copy_loop_keeps[OF c2 ab]
    note k3 = copy_loop_keeps[OF c3 ab]
    have "heap_ok m1" using k1 k0 by simp
    moreover have "heap_ok m2" using k2 calculation by simp
    ultimately show ?thesis using k0 k1 k2 k3 rr ab by (auto intro: keeps_trans)
  qed
qed

lemma quicksort_functional_base:
  "sz \<le> 1 \<Longrightarrow> malloc m sz = (res, m1) \<Longrightarrow>
     quicksort_functional key m arr sz =
       (if res = None then Some (m1, None)
        else map_option (\<lambda>(m2, idx). (m2, res)) (copy_loop m1 res arr sz 0 0))"
  by (subst quicksort_functional.simps) simp

lemma quicksort_functional_rec:
  "\<not> sz \<le> 1 \<Longrightarrow> load m arr (sz div 2) = Some pv \<Longrightarrow>
   count_loop key m arr sz (key pv) 0 (0, 0, 0) = Some (lc, ec, gc) \<Longrightarrow>
   malloc m lc = (lb, m1) \<Longrightarrow> malloc m1 ec = (eb, m2) \<Longrightarrow> malloc m2 gc = (gb, m3) \<Longrightarrow>
   quicksort_functional key m arr sz =
     (if (lc > 0 \<and> lb = None) \<or> (ec > 0 \<and> eb = None) \<or> (gc > 0 \<and> gb = None)
      then Some (free (free (free m3 lb) eb) gb, None)
      else
        (case fill_loop key m3 arr sz (key pv) lb eb gb 0 (0, 0, 0) of None \<Rightarrow> None
         | Some m4 \<Rightarrow>
            (case quicksort_functional key m4 lb lc of None \<Rightarrow> None
             | Some (m5, sorted_less) \<Rightarrow>
                (case quicksort_functional key m5 gb gc of None \<Rightarrow> None
                 | Some (m6, sorted_greater) \<Rightarrow>
                    (case merge_arrays m6 sorted_less lc eb ec sorted_greater gc of None \<Rightarrow> None
                     | Some (m7, result) \<Rightarrow>
                        (let m8 = free (free (free m7 lb) eb) gb;
                             m9 = (if sorted_less \<noteq> lb then free m8 sorted_less else m8);
                             m10 = (if sorted_greater \<noteq> gb then free m9 sorted_greater else m9)
                         in Some (m10, result)))))))"
  by (subst quicksort_functional.simps) simp

lemma quicksort_functional_parts:
  assumes "quicksort_functional key m arr sz = Some (m', r)" "\<not> sz \<le> 1"
  obtains pv lc ec gc where "load m arr (sz div 2) = Some pv"
    "count_loop key m arr sz (key pv) 0 (0, 0, 0) = Some (lc, ec, gc)"
proof -
  from assms obtain pv where pv: "load m arr (sz div 2) = Some pv"
    by (subst (asm) quicksort_functional.simps) (auto split: option.splits)
  from assms pv obtain c where "count_loop key m arr sz (key pv) 0 (0, 0, 0) = Some c"
    by (subst (asm) quicksort_functional.simps) (auto split: option.splits)
  then show ?thesis using pv that by (cases c) auto
qed

lemma quicksort_functional_keeps:
  "quicksort_functional key m arr sz = Some (m', r) \<Longrightarrow> heap_ok m \<Longrightarrow>
     keeps (fresh m) m m' \<and> heap_ok m' \<and> above (fresh m) r"
proof (induction key m arr sz arbitrary: m' r rule: quicksort_functional.induct)
  case (1 key m arr sz)
  show ?case
  proof (cases "sz \<le> 1")
    case True
    obtain res m1 where ma: "malloc m sz = (res, m1)" by (cases "malloc m sz")
    note k0 = malloc_keeps[OF ma "1.prems"(2)]
    show ?thesis
    proof (cases res)
      case None
      then show ?thesis using "1.prems"(1) k0 by (simp add: quicksort_functional_base[OF True ma])
    next
      case (Some a)
      have "quicksort_functional key m arr sz
          = map_option (\<lambda>(m2, idx). (m2, res)) (copy_loop m1 res arr sz 0 0)"
        using quicksort_functional_base[OF True ma] Some by simp
      then have "map_option (\<lambda>(m2, idx). (m2, res)) (copy_loop m1 res arr sz 0 0) = Some (m', r)"
        using "1.prems"(1) by simp
      then obtain z where z: "copy_loop m1 res arr sz 0 0 = Some z" "(\<lambda>(m2, idx). (m2, res)) z = (m', r)"
        unfolding map_option_eq_Some by blast
      obtain idx where c: "copy_loop m1 res arr sz 0 0 = Some (m', idx)" and rr: "r = res"
        using z by (cases z) auto
      have ab: "above (fresh m) res" using k0 by simp
      have h1: "heap_ok m1" using k0 by simp
      from copy_loop_keeps[OF c ab h1] k0 rr show ?thesis by (auto intro: keeps_trans)
    qed
  next
    case False
    from quicksort_functional_parts[OF "1.prems"(1) False]
    obtain pv lc ec gc where pv: "load m arr (sz div 2) = Some pv"
      and cl: "count_loop key m arr sz (key pv) 0 (0, 0, 0) = Some (lc, ec, gc)" by blast
    obtain lb m1 where a1: "malloc m lc = (lb, m1)" by (cases "malloc m lc")
    obtain eb m2 where a2: "malloc m1 ec = (eb, m2)" by (cases "malloc m1 ec")
    obtain gb m3 where a3: "malloc m2 gc = (gb, m3)" by (cases "malloc m2 gc")
    note k1 = malloc_keeps[OF a1 "1.prems"(2)]
    have h1: "heap_ok m1" using k1 by simp
    note k2 = malloc_keeps[OF a2 h1]
    have h2: "heap_ok m2" using k2 by simp
    note k3 = malloc_keeps[OF a3 h2]
    have h3: "heap_ok m3" using k3 by simp
    have f1: "fresh m \<le> fresh m1" using k1 by (simp add: keeps_def)
    have f2: "fresh m \<le> fresh m2" using k2 f1 by (simp add: keeps_def)
    have f3: "fresh m \<le> fresh m3" using k3 f2 by (simp add: keeps_def)
    have K3: "keeps (fresh m) m m3"
      using k1 keeps_mono[OF conjunct1[OF k2] f1] keeps_mono[OF conjunct1[OF k3] f2]
      by (auto intro: keeps_trans)
    have ab: "above (fresh m) lb" "above (fresh m) eb" "above (fresh m) gb"
      using k1 k2 k3 f1 f2 by (auto intro: above_mono)
    note unf = quicksort_functional_rec[OF False pv cl a1 a2 a3]
    show ?thesis
    proof (cases "(lc > 0 \<and> lb = None) \<or> (ec > 0 \<and> eb = None) \<or> (gc > 0 \<and> gb = None)")
      case True
      then have e: "m' = free (free (free m3 lb) eb) gb" "r = None"
        using "1.prems"(1) unfolding unf by auto
      note g1 = free_keeps[OF ab(1) h3]
      note g2 = free_keeps[OF ab(2) conjunct1[OF conjunct2[OF g1]]]
      note g3 = free_keeps[OF ab(3) conjunct1[OF conjunct2[OF g2]]]
      show ?thesis unfolding e using K3 g1 g2 g3 by (auto intro: keeps_trans)
    next
      case nf: False
      obtain m4 m5 sl m6 sg m7 result where fl: "fill_loop key m3 arr sz (key pv) lb eb gb 0 (0, 0, 0) = Some m4"
        and q1: "quicksort_functional key m4 lb lc = Some (m5, sl)"
        and q2: "quicksort_functional key m5 gb gc = Some (m6, sg)"
        and mg: "merge_arrays m6 sl lc eb ec sg gc = Some (m7, result)"
        and e: "m' = (let m8 = free (free (free m7 lb) eb) gb;
                             m9 = (if sl \<noteq> lb then free m8 sl else m8);
                             m10 = (if sg \<noteq> gb then free m9 sg else m9)
                         in m10)" "r = result"
        using "1.prems"(1) nf unfolding unf by (auto split: option.splits simp: Let_def)
      note k4 = fill_loop_keeps[OF fl ab h3]
      have h4: "heap_ok m4" using k4 by simp
      have f4: "fresh m \<le> fresh m4" using k4 f3 by simp
      note k5 = "1.IH"(1)[OF False pv cl refl refl a1[symmetric] a2[symmetric] a3[symmetric] nf fl q1 h4]
      have h5: "heap_ok m5" using k5 by simp
      have f5: "fresh m \<le> fresh m5" using k5 f4 by (simp add: keeps_def)
      note k6 = "1.IH"(2)[OF False pv cl refl refl a1[symmetric] a2[symmetric] a3[symmetric] nf fl q1 refl q2 h5]
      have h6: "heap_ok m6" using k6 by simp
      have f6: "fresh m \<le> fresh m6" using k6 f5 by (simp add: keeps_def)
      note k7 = merge_arrays_keeps[OF mg h6]
      have h7: "heap_ok m7" using k7 by simp
      have K7: "keeps (fresh m) m m7"
        using K3 conjunct1[OF k4] keeps_mono[OF conjunct1[OF k5] f4] keeps_mono[OF conjunct1[OF k6] f5]
          keeps_mono[OF conjunct1[OF k7] f6]
        by (blast intro: keeps_trans)
      have abs: "above (fresh m) sl" "above (fresh m) sg" "above (fresh m) result"
        using k5 k6 k7 f4 f5 f6 by (auto intro: above_mono)
      define m8 where "m8 = free (free (free m7 lb) eb) gb"
      define m9 where "m9 = (if sl \<noteq> lb then free m8 sl else m8)"
      define m10 where "m10 = (if sg \<noteq> gb then free m9 sg else m9)"
      note g1 = free_keeps[OF ab(1) h7]
      note g2 = free_keeps[OF ab(2) conjunct1[OF conjunct2[OF g1]]]
      note g3 = free_keeps[OF ab(3) conjunct1[OF conjunct2[OF g2]]]
      have K8: "keeps (fresh m) m7 m8 \<and> heap_ok m8"
        unfolding m8_def using g1 g2 g3 by (blast intro: keeps_trans)
      have K9: "keeps (fresh m) m8 m9 \<and> heap_ok m9"
        unfolding m9_def using free_keeps[OF abs(1), of m8] K8 by simp
      have K10: "keeps (fresh m) m9 m10 \<and> heap_ok m10"
        unfolding m10_def using free_keeps[OF abs(2), of m9] K9 by simp
      have "m' = m10" using e(1) by (simp add: m8_def m9_def m10_def Let_def)
      then show ?thesis using K7 K8 K9 K10 abs e(2) by (blast intro: keeps_trans)
    qed
  qed
qed

section \<open>The functional quicksort: what it computes when its allocations succeed\<close>

text \<open>\<open>holds m a sz xs\<close>: the first \<open>sz\<close> cells of the live block at \<open>a\<close> hold the list \<open>xs\<close>.\<close>

definition holds :: "'a mem \<Rightarrow> nat \<Rightarrow> nat \<Rightarrow> 'a list \<Rightarrow> bool" where
  "holds m a sz xs = (\<exists>cells. blocks m a = Some cells \<and> sz \<le> length cells \<and> take sz cells = map Some xs)"

lemma holds_length: "holds m a sz xs \<Longrightarrow> length xs = sz"
proof -
  assume "holds m a sz xs"
  then obtain cells where c: "sz \<le> length cells" "take sz cells = map Some xs"
    by (auto simp: holds_def)
  have "length (take sz cells) = length (map Some xs)" using c(2) by simp
  then show ?thesis using c(1) by simp
qed

lemma load_holds: "holds m a sz xs \<Longrightarrow> i < sz \<Longrightarrow> load m (Some a) i = Some (xs ! i)"
proof -
  assume h: "holds m a sz xs" and i: "i < sz"
  then obtain cells where c: "blocks m a = Some cells" "sz \<le> length cells" "take sz cells = map Some xs"
    by (auto simp: holds_def)
  have "cells ! i = take sz cells ! i" using i by simp
  also have "\<dots> = Some (xs ! i)" using i holds_length[OF h] by (simp add: c(3))
  finally show ?thesis using c i by (simp add: load_def)
qed

lemma holds_cong: "blocks m' a = blocks m a \<Longrightarrow> holds m a sz xs \<Longrightarrow> holds m' a sz xs"
  by (simp add: holds_def)

lemma holds_exact: "blocks m a = Some (map Some xs) \<Longrightarrow> holds m a (length xs) xs"
  by (simp add: holds_def)

lemma count_loop_eq:
  "holds m a sz xs \<Longrightarrow> i \<le> sz \<Longrightarrow>
     count_loop key m (Some a) sz pivot i (l, e, g) =
       Some (l + length (filter (\<lambda>x. key x < pivot) (drop i xs)),
             e + length (filter (\<lambda>x. key x = pivot) (drop i xs)),
             g + length (filter (\<lambda>x. pivot < key x) (drop i xs)))"
proof (induction key m "Some a :: ptr" sz pivot i "(l, e, g)" arbitrary: l e g rule: count_loop.induct)
  case (1 key m sz pivot i l e g)
  have len: "length xs = sz" using holds_length[OF "1.prems"(1)] .
  show ?case
  proof (cases "i < sz")
    case False
    then show ?thesis using "1.prems" len by (subst count_loop.simps) simp
  next
    case True
    have x: "load m (Some a) i = Some (xs ! i)" using load_holds[OF "1.prems"(1) True] .
    have dr: "drop i xs = xs ! i # drop (i + 1) xs"
      using True len by (simp add: Cons_nth_drop_Suc)
    have i1: "i + 1 \<le> sz" using True by simp
    consider (lt) "key (xs ! i) < pivot" | (eq) "\<not> key (xs ! i) < pivot" "key (xs ! i) = pivot"
      | (gt) "\<not> key (xs ! i) < pivot" "key (xs ! i) \<noteq> pivot" by blast
    then show ?thesis
    proof cases
      case lt
      show ?thesis
        using True x lt "1.hyps"(1)[OF True x lt "1.prems"(1) i1]
        by (subst count_loop.simps) (simp add: dr)
    next
      case eq
      show ?thesis
        using True x eq "1.hyps"(2)[OF True x eq "1.prems"(1) i1]
        by (subst count_loop.simps) (simp add: dr)
    next
      case gt
      then have "pivot < key (xs ! i)" by simp
      then show ?thesis
        using True x gt "1.hyps"(3)[OF True x gt "1.prems"(1) i1]
        by (subst count_loop.simps) (simp add: dr)
    qed
  qed
qed

lemma store_at:
  "blocks m a = Some cells \<Longrightarrow> i < length cells \<Longrightarrow>
     store m (Some a) i v = Some (m\<lparr>blocks := (blocks m)(a \<mapsto> cells[i := Some v])\<rparr>)"
  by (simp add: store_def)

lemma fill_cell:
  "(map Some ds @ replicate (Suc k) None)[length ds := Some x] = map Some (ds @ [x]) @ replicate k None"
  by (simp add: list_update_append)

lemma copy_loop_eq:
  "holds m s n ys \<Longrightarrow> blocks m r = Some rc \<Longrightarrow> r \<noteq> s \<Longrightarrow> i \<le> n \<Longrightarrow> idx + (n - i) \<le> length rc \<Longrightarrow>
     \<exists>m'. copy_loop m (Some r) (Some s) n i idx = Some (m', idx + (n - i)) \<and>
       blocks m' r = Some (take idx rc @ map Some (drop i ys) @ drop (idx + (n - i)) rc) \<and>
       (\<forall>q. q \<noteq> r \<longrightarrow> blocks m' q = blocks m q) \<and> fresh m' = fresh m \<and> outcomes m' = outcomes m"
proof (induction m "Some r :: ptr" "Some s :: ptr" n i idx arbitrary: rc rule: copy_loop.induct)
  case (1 m n i idx)
  have len: "length ys = n" using holds_length[OF "1.prems"(1)] .
  show ?case
  proof (cases "i < n")
    case False
    then show ?thesis using "1.prems" len by (subst copy_loop.simps) simp
  next
    case True
    have x: "load m (Some s) i = Some (ys ! i)" using load_holds[OF "1.prems"(1) True] .
    have il: "idx < length rc" using True "1.prems"(5) by linarith
    define m1 where "m1 = m\<lparr>blocks := (blocks m)(r \<mapsto> rc[idx := Some (ys ! i)])\<rparr>"
    have st: "store m (Some r) idx (ys ! i) = Some m1"
      unfolding m1_def by (rule store_at[OF "1.prems"(2) il])
    have h1: "holds m1 s n ys"
      using "1.prems"(1,3) by (intro holds_cong[of m1 s m]) (simp_all add: m1_def)
    have b1: "blocks m1 r = Some (rc[idx := Some (ys ! i)])" by (simp add: m1_def)
    have e: "idx + 1 + (n - (i + 1)) = idx + (n - i)" using True by linarith
    have p5: "idx + 1 + (n - (i + 1)) \<le> length (rc[idx := Some (ys ! i)])"
      unfolding e using "1.prems"(5) by simp
    have p4: "i + 1 \<le> n" using True by simp
    from "1.hyps"[OF True x st h1 b1 "1.prems"(3) p4 p5]
    obtain m' where ih: "copy_loop m1 (Some r) (Some s) n (i + 1) (idx + 1) = Some (m', idx + 1 + (n - (i + 1)))"
      "blocks m' r = Some (take (idx + 1) (rc[idx := Some (ys ! i)]) @ map Some (drop (i + 1) ys)
          @ drop (idx + 1 + (n - (i + 1))) (rc[idx := Some (ys ! i)]))"
      "\<forall>q. q \<noteq> r \<longrightarrow> blocks m' q = blocks m1 q" "fresh m' = fresh m1" "outcomes m' = outcomes m1"
      by blast
    have t: "take (idx + 1) (rc[idx := Some (ys ! i)]) = take idx rc @ [Some (ys ! i)]"
      using il by (simp add: take_Suc_conv_app_nth)
    have "idx < idx + (n - i)" using True by linarith
    then have d: "drop (idx + (n - i)) (rc[idx := Some (ys ! i)]) = drop (idx + (n - i)) rc"
      by (rule drop_update_cancel)
    have dr: "drop i ys = ys ! i # drop (i + 1) ys"
      using True len by (simp add: Cons_nth_drop_Suc)
    have step: "copy_loop m (Some r) (Some s) n i idx = copy_loop m1 (Some r) (Some s) n (i + 1) (idx + 1)"
      using True x st by (subst copy_loop.simps) simp
    have "blocks m' r = Some (take idx rc @ map Some (drop i ys) @ drop (idx + (n - i)) rc)"
      using ih(2) unfolding e t d dr by simp
    moreover have "\<forall>q. q \<noteq> r \<longrightarrow> blocks m' q = blocks m q"
      using ih(3) by (simp add: m1_def)
    ultimately show ?thesis
      unfolding step using ih(1,4,5) e by (simp add: m1_def)
  qed
qed

lemma filter_take_Suc:
  "i < length xs \<Longrightarrow> filter P (take (i + 1) xs) = filter P (take i xs) @ (if P (xs ! i) then [xs ! i] else [])"
  by (simp add: take_Suc_conv_app_nth)

lemma filter_drop_Suc:
  "i < length xs \<Longrightarrow>
     length (filter P (drop i xs)) = (if P (xs ! i) then 1 else 0) + length (filter P (drop (i + 1) xs))"
  by (simp add: Cons_nth_drop_Suc[symmetric])

lemma update_middle: "length as = n \<Longrightarrow> (as @ b # bs)[n := v] = as @ v # bs"
  by (auto simp: list_update_append)

definition part_cells :: "('a \<Rightarrow> bool) \<Rightarrow> nat \<Rightarrow> 'a list \<Rightarrow> 'a option list" where
  "part_cells P i xs = map Some (filter P (take i xs)) @ replicate (length (filter P (drop i xs))) None"

lemma part_cells_hit:
  assumes "i < length xs" "P (xs ! i)"
  shows "length (filter P (take i xs)) < length (part_cells P i xs)"
    and "(part_cells P i xs)[length (filter P (take i xs)) := Some (xs ! i)] = part_cells P (i + 1) xs"
proof -
  have d: "length (filter P (drop i xs)) = Suc (length (filter P (drop (i + 1) xs)))"
    using filter_drop_Suc[OF assms(1), of P] assms(2) by simp
  show "length (filter P (take i xs)) < length (part_cells P i xs)"
    by (simp add: part_cells_def d)
  show "(part_cells P i xs)[length (filter P (take i xs)) := Some (xs ! i)] = part_cells P (i + 1) xs"
    unfolding part_cells_def d filter_take_Suc[OF assms(1)] using assms(2)
    by (simp add: update_middle)
qed

lemma part_cells_miss:
  assumes "i < length xs" "\<not> P (xs ! i)"
  shows "part_cells P (i + 1) xs = part_cells P i xs"
    and "length (filter P (take (i + 1) xs)) = length (filter P (take i xs))"
  using filter_drop_Suc[OF assms(1), of P] filter_take_Suc[OF assms(1), of P] assms(2)
  by (simp_all add: part_cells_def)

lemma part_cells_end: "length xs \<le> i \<Longrightarrow> part_cells P i xs = map Some (filter P xs)"
  by (simp add: part_cells_def)

lemma fill_loop_eq:
  "holds m a sz xs \<Longrightarrow> i \<le> sz \<Longrightarrow> distinct [a, lb, eb, gb] \<Longrightarrow>
   blocks m lb = Some (part_cells (\<lambda>x. key x < pivot) i xs) \<Longrightarrow>
   blocks m eb = Some (part_cells (\<lambda>x. key x = pivot) i xs) \<Longrightarrow>
   blocks m gb = Some (part_cells (\<lambda>x. pivot < key x) i xs) \<Longrightarrow>
   li = length (filter (\<lambda>x. key x < pivot) (take i xs)) \<Longrightarrow>
   ei = length (filter (\<lambda>x. key x = pivot) (take i xs)) \<Longrightarrow>
   gi = length (filter (\<lambda>x. pivot < key x) (take i xs)) \<Longrightarrow>
   \<exists>m'. fill_loop key m (Some a) sz pivot (Some lb) (Some eb) (Some gb) i (li, ei, gi) = Some m' \<and>
     blocks m' lb = Some (map Some (filter (\<lambda>x. key x < pivot) xs)) \<and>
     blocks m' eb = Some (map Some (filter (\<lambda>x. key x = pivot) xs)) \<and>
     blocks m' gb = Some (map Some (filter (\<lambda>x. pivot < key x) xs)) \<and>
     (\<forall>q. q \<noteq> lb \<and> q \<noteq> eb \<and> q \<noteq> gb \<longrightarrow> blocks m' q = blocks m q) \<and>
     fresh m' = fresh m \<and> outcomes m' = outcomes m"
proof (induction key m "Some a :: ptr" sz pivot "Some lb :: ptr" "Some eb :: ptr" "Some gb :: ptr" i "(li, ei, gi)"
    arbitrary: li ei gi rule: fill_loop.induct)
  case (1 key m sz pivot i li ei gi)
  have len: "length xs = sz" using holds_length[OF "1.prems"(1)] .
  note d = "1.prems"(3)
  show ?case
  proof (cases "i < sz")
    case False
    then have "length xs \<le> i" using len by simp
    then show ?thesis
      using False "1.prems"(4,5,6) by (subst fill_loop.simps) (simp add: part_cells_end)
  next
    case True
    have il: "i < length xs" using True len by simp
    have x: "load m (Some a) i = Some (xs ! i)" using load_holds[OF "1.prems"(1) True] .
    have i1: "i + 1 \<le> sz" using True by simp
    consider (lt) "key (xs ! i) < pivot" | (eq) "\<not> key (xs ! i) < pivot" "key (xs ! i) = pivot"
      | (gt) "\<not> key (xs ! i) < pivot" "key (xs ! i) \<noteq> pivot" by blast
    then show ?thesis
    proof cases
      case lt
      define m1 where "m1 = m\<lparr>blocks := (blocks m)(lb \<mapsto> part_cells (\<lambda>x. key x < pivot) (i + 1) xs)\<rparr>"
      note hit = part_cells_hit[OF il, of "\<lambda>x. key x < pivot", OF lt]
      have st: "store m (Some lb) li (xs ! i) = Some m1"
        using store_at[OF "1.prems"(4), of li "xs ! i"] hit by (simp add: "1.prems"(7) m1_def)
      have ne: "\<not> key (xs ! i) = pivot" "\<not> pivot < key (xs ! i)" using lt by simp_all
      note me = part_cells_miss[OF il, of "\<lambda>x. key x = pivot", OF ne(1)]
      note mg = part_cells_miss[OF il, of "\<lambda>x. pivot < key x", OF ne(2)]
      have h1: "holds m1 a sz xs"
        using "1.prems"(1) d by (intro holds_cong[of m1 a m]) (simp_all add: m1_def)
      have b: "blocks m1 lb = Some (part_cells (\<lambda>x. key x < pivot) (i + 1) xs)"
        "blocks m1 eb = Some (part_cells (\<lambda>x. key x = pivot) (i + 1) xs)"
        "blocks m1 gb = Some (part_cells (\<lambda>x. pivot < key x) (i + 1) xs)"
        using d "1.prems"(5,6) me(1) mg(1) by (simp_all add: m1_def)
      have ix: "li + 1 = length (filter (\<lambda>x. key x < pivot) (take (i + 1) xs))"
        "ei = length (filter (\<lambda>x. key x = pivot) (take (i + 1) xs))"
        "gi = length (filter (\<lambda>x. pivot < key x) (take (i + 1) xs))"
        using "1.prems"(7,8,9) me(2) mg(2) filter_take_Suc[OF il, of "\<lambda>x. key x < pivot"] lt by simp_all
      from "1.hyps"(1)[OF True x lt st h1 i1 d b ix]
      obtain m' where ih: "fill_loop key m1 (Some a) sz pivot (Some lb) (Some eb) (Some gb) (i + 1) (li + 1, ei, gi) = Some m'"
        "blocks m' lb = Some (map Some (filter (\<lambda>x. key x < pivot) xs))"
        "blocks m' eb = Some (map Some (filter (\<lambda>x. key x = pivot) xs))"
        "blocks m' gb = Some (map Some (filter (\<lambda>x. pivot < key x) xs))"
        "\<forall>q. q \<noteq> lb \<and> q \<noteq> eb \<and> q \<noteq> gb \<longrightarrow> blocks m' q = blocks m1 q"
        "fresh m' = fresh m1" "outcomes m' = outcomes m1"
        by blast
      have step: "fill_loop key m (Some a) sz pivot (Some lb) (Some eb) (Some gb) i (li, ei, gi)
          = fill_loop key m1 (Some a) sz pivot (Some lb) (Some eb) (Some gb) (i + 1) (li + 1, ei, gi)"
        using True x lt st by (subst fill_loop.simps) simp
      show ?thesis unfolding step using ih by (simp add: m1_def)
    next
      case eq
      define m1 where "m1 = m\<lparr>blocks := (blocks m)(eb \<mapsto> part_cells (\<lambda>x. key x = pivot) (i + 1) xs)\<rparr>"
      note hit = part_cells_hit[OF il, of "\<lambda>x. key x = pivot", OF eq(2)]
      have st: "store m (Some eb) ei (xs ! i) = Some m1"
        using store_at[OF "1.prems"(5), of ei "xs ! i"] hit by (simp add: "1.prems"(8) m1_def)
      have ne: "\<not> key (xs ! i) < pivot" "\<not> pivot < key (xs ! i)" using eq by simp_all
      note ml = part_cells_miss[OF il, of "\<lambda>x. key x < pivot", OF ne(1)]
      note mg = part_cells_miss[OF il, of "\<lambda>x. pivot < key x", OF ne(2)]
      have h1: "holds m1 a sz xs"
        using "1.prems"(1) d by (intro holds_cong[of m1 a m]) (simp_all add: m1_def)
      have b: "blocks m1 lb = Some (part_cells (\<lambda>x. key x < pivot) (i + 1) xs)"
        "blocks m1 eb = Some (part_cells (\<lambda>x. key x = pivot) (i + 1) xs)"
        "blocks m1 gb = Some (part_cells (\<lambda>x. pivot < key x) (i + 1) xs)"
        using d "1.prems"(4,6) ml(1) mg(1) by (simp_all add: m1_def)
      have ix: "li = length (filter (\<lambda>x. key x < pivot) (take (i + 1) xs))"
        "ei + 1 = length (filter (\<lambda>x. key x = pivot) (take (i + 1) xs))"
        "gi = length (filter (\<lambda>x. pivot < key x) (take (i + 1) xs))"
        using "1.prems"(7,8,9) ml(2) mg(2) filter_take_Suc[OF il, of "\<lambda>x. key x = pivot"] eq by simp_all
      from "1.hyps"(2)[OF True x eq st h1 i1 d b ix]
      obtain m' where ih: "fill_loop key m1 (Some a) sz pivot (Some lb) (Some eb) (Some gb) (i + 1) (li, ei + 1, gi) = Some m'"
        "blocks m' lb = Some (map Some (filter (\<lambda>x. key x < pivot) xs))"
        "blocks m' eb = Some (map Some (filter (\<lambda>x. key x = pivot) xs))"
        "blocks m' gb = Some (map Some (filter (\<lambda>x. pivot < key x) xs))"
        "\<forall>q. q \<noteq> lb \<and> q \<noteq> eb \<and> q \<noteq> gb \<longrightarrow> blocks m' q = blocks m1 q"
        "fresh m' = fresh m1" "outcomes m' = outcomes m1"
        by blast
      have step: "fill_loop key m (Some a) sz pivot (Some lb) (Some eb) (Some gb) i (li, ei, gi)
          = fill_loop key m1 (Some a) sz pivot (Some lb) (Some eb) (Some gb) (i + 1) (li, ei + 1, gi)"
        using True x eq st by (subst fill_loop.simps) simp
      show ?thesis unfolding step using ih by (simp add: m1_def)
    next
      case gt
      have g: "pivot < key (xs ! i)" using gt by simp
      define m1 where "m1 = m\<lparr>blocks := (blocks m)(gb \<mapsto> part_cells (\<lambda>x. pivot < key x) (i + 1) xs)\<rparr>"
      note hit = part_cells_hit[OF il, of "\<lambda>x. pivot < key x", OF g]
      have st: "store m (Some gb) gi (xs ! i) = Some m1"
        using store_at[OF "1.prems"(6), of gi "xs ! i"] hit by (simp add: "1.prems"(9) m1_def)
      note ml = part_cells_miss[OF il, of "\<lambda>x. key x < pivot", OF gt(1)]
      note me = part_cells_miss[OF il, of "\<lambda>x. key x = pivot", OF gt(2)]
      have h1: "holds m1 a sz xs"
        using "1.prems"(1) d by (intro holds_cong[of m1 a m]) (simp_all add: m1_def)
      have b: "blocks m1 lb = Some (part_cells (\<lambda>x. key x < pivot) (i + 1) xs)"
        "blocks m1 eb = Some (part_cells (\<lambda>x. key x = pivot) (i + 1) xs)"
        "blocks m1 gb = Some (part_cells (\<lambda>x. pivot < key x) (i + 1) xs)"
        using d "1.prems"(4,5) ml(1) me(1) by (simp_all add: m1_def)
      have ix: "li = length (filter (\<lambda>x. key x < pivot) (take (i + 1) xs))"
        "ei = length (filter (\<lambda>x. key x = pivot) (take (i + 1) xs))"
        "gi + 1 = length (filter (\<lambda>x. pivot < key x) (take (i + 1) xs))"
        using "1.prems"(7,8,9) ml(2) me(2) filter_take_Suc[OF il, of "\<lambda>x. pivot < key x"] g by simp_all
      from "1.hyps"(3)[OF True x gt st h1 i1 d b ix]
      obtain m' where ih: "fill_loop key m1 (Some a) sz pivot (Some lb) (Some eb) (Some gb) (i + 1) (li, ei, gi + 1) = Some m'"
        "blocks m' lb = Some (map Some (filter (\<lambda>x. key x < pivot) xs))"
        "blocks m' eb = Some (map Some (filter (\<lambda>x. key x = pivot) xs))"
        "blocks m' gb = Some (map Some (filter (\<lambda>x. pivot < key x) xs))"
        "\<forall>q. q \<noteq> lb \<and> q \<noteq> eb \<and> q \<noteq> gb \<longrightarrow> blocks m' q = blocks m1 q"
        "fresh m' = fresh m1" "outcomes m' = outcomes m1"
        by blast
      have step: "fill_loop key m (Some a) sz pivot (Some lb) (Some eb) (Some gb) i (li, ei, gi)
          = fill_loop key m1 (Some a) sz pivot (Some lb) (Some eb) (Some gb) (i + 1) (li, ei, gi + 1)"
        using True x gt st by (subst fill_loop.simps) simp
      show ?thesis unfolding step using ih by (simp add: m1_def)
    qed
  qed
qed

lemma holds_live: "holds m a sz xs \<Longrightarrow> heap_ok m \<Longrightarrow> a < fresh m"
  by (auto simp: holds_def dest: heap_okD)

lemma malloc_ok:
  assumes "fst (alloc (outcomes m))"
  shows "malloc m k = (Some (fresh m),
           m\<lparr>blocks := (blocks m)(fresh m \<mapsto> replicate k None), fresh := fresh m + 1,
              outcomes := snd (alloc (outcomes m))\<rparr>)"
  using assms by (cases "alloc (outcomes m)") (simp add: malloc_def Let_def)

lemma merge_arrays_eq:
  assumes "heap_ok m" "fst (alloc (outcomes m))"
    "holds m a1 n1 ys1" "holds m a2 n2 ys2" "holds m a3 n3 ys3"
  shows "\<exists>m'. merge_arrays m (Some a1) n1 (Some a2) n2 (Some a3) n3 = Some (m', Some (fresh m)) \<and>
     blocks m' (fresh m) = Some (map Some (ys1 @ ys2 @ ys3)) \<and>
     (\<forall>q. q \<noteq> fresh m \<longrightarrow> blocks m' q = blocks m q) \<and>
     fresh m' = fresh m + 1 \<and> outcomes m' = snd (alloc (outcomes m))"
proof -
  define r where "r = fresh m"
  define m0 where "m0 = m\<lparr>blocks := (blocks m)(r \<mapsto> replicate (n1 + n2 + n3) None), fresh := fresh m + 1,
              outcomes := snd (alloc (outcomes m))\<rparr>"
  have ma: "malloc m (n1 + n2 + n3) = (Some r, m0)"
    unfolding r_def m0_def by (rule malloc_ok[OF assms(2)])
  have ne: "r \<noteq> a1" "r \<noteq> a2" "r \<noteq> a3"
    using holds_live[OF assms(3,1)] holds_live[OF assms(4,1)] holds_live[OF assms(5,1)] by (auto simp: r_def)
  have l: "length ys1 = n1" "length ys2 = n2" "length ys3 = n3"
    using holds_length assms(3,4,5) by blast+
  have h0: "holds m0 a1 n1 ys1"
    using assms(3) ne by (intro holds_cong[of m0 a1 m]) (simp_all add: m0_def)
  have b0: "blocks m0 r = Some (replicate (n1 + n2 + n3) None)" by (simp add: m0_def)
  from copy_loop_eq[OF h0 b0 ne(1), of 0 0]
  obtain m1 where c1: "copy_loop m0 (Some r) (Some a1) n1 0 0 = Some (m1, n1)"
    and b1: "blocks m1 r = Some (map Some ys1 @ replicate (n2 + n3) None)"
    and f1: "\<forall>q. q \<noteq> r \<longrightarrow> blocks m1 q = blocks m0 q" "fresh m1 = fresh m0" "outcomes m1 = outcomes m0"
    by (auto simp: drop_replicate)
  have h1: "holds m1 a2 n2 ys2"
    using assms(4) ne f1 by (intro holds_cong[of m1 a2 m]) (simp_all add: m0_def)
  have "n1 + (n2 - 0) \<le> length (map Some ys1 @ replicate (n2 + n3) None)" using l by simp
  from copy_loop_eq[OF h1 b1 ne(2) _ this]
  obtain m2 where c2: "copy_loop m1 (Some r) (Some a2) n2 0 n1 = Some (m2, n1 + n2)"
    and b2: "blocks m2 r = Some (map Some ys1 @ map Some ys2 @ replicate n3 None)"
    and f2: "\<forall>q. q \<noteq> r \<longrightarrow> blocks m2 q = blocks m1 q" "fresh m2 = fresh m1" "outcomes m2 = outcomes m1"
    using l by (auto simp: drop_replicate)
  have h2: "holds m2 a3 n3 ys3"
    using assms(5) ne f1 f2 by (intro holds_cong[of m2 a3 m]) (simp_all add: m0_def)
  have "n1 + n2 + (n3 - 0) \<le> length (map Some ys1 @ map Some ys2 @ replicate n3 None)" using l by simp
  from copy_loop_eq[OF h2 b2 ne(3) _ this]
  obtain m3 where c3: "copy_loop m2 (Some r) (Some a3) n3 0 (n1 + n2) = Some (m3, n1 + n2 + n3)"
    and b3: "blocks m3 r = Some (map Some ys1 @ map Some ys2 @ map Some ys3)"
    and f3: "\<forall>q. q \<noteq> r \<longrightarrow> blocks m3 q = blocks m2 q" "fresh m3 = fresh m2" "outcomes m3 = outcomes m2"
    using l by auto
  have "merge_arrays m (Some a1) n1 (Some a2) n2 (Some a3) n3 = Some (m3, Some r)"
    by (simp add: merge_arrays_def Let_def ma c1 c2 c3)
  moreover have "\<forall>q. q \<noteq> r \<longrightarrow> blocks m3 q = blocks m q"
    using f1 f2 f3 by (simp add: m0_def)
  ultimately show ?thesis
    using b3 f1 f2 f3 by (auto simp: r_def m0_def)
qed

lemma blocks_free: "blocks (free m (Some a)) q = (if q = a then None else blocks m q)"
  by (simp add: free_def)

lemma outcomes_free [simp]: "outcomes (free m p) = outcomes m"
  by (simp add: free_def split: option.splits)

lemma keeps_blocks: "keeps n m m' \<Longrightarrow> q < n \<Longrightarrow> blocks m' q = blocks m q"
  by (simp add: keeps_def)

lemma keeps_fresh: "keeps n m m' \<Longrightarrow> fresh m \<le> fresh m'"
  by (simp add: keeps_def)

lemma quicksort_functional_sorts:
  "heap_ok m \<Longrightarrow> all_succeed (outcomes m) \<Longrightarrow> arr = Some a \<Longrightarrow> holds m a sz xs \<Longrightarrow>
   \<exists>m' r. quicksort_functional key m arr sz = Some (m', Some r) \<and>
     blocks m' r = Some (map Some (sort_key key xs)) \<and> all_succeed (outcomes m')"
proof (induction key m arr sz arbitrary: a xs rule: quicksort_functional.induct)
  case (1 key m arr sz)
  note hk = "1.prems"(1) and su = "1.prems"(2) and ar = "1.prems"(3) and ho = "1.prems"(4)
  have len: "length xs = sz" using holds_length[OF ho] .
  have alive: "a < fresh m" using holds_live[OF ho hk] .
  note s1 = alloc_all_succeed[OF su]
  show ?case
  proof (cases "sz \<le> 1")
    case True
    define r where "r = fresh m"
    define m1 where "m1 = m\<lparr>blocks := (blocks m)(r \<mapsto> replicate sz None), fresh := fresh m + 1,
              outcomes := snd (alloc (outcomes m))\<rparr>"
    have ma: "malloc m sz = (Some r, m1)"
      unfolding r_def m1_def by (rule malloc_ok) (use s1 in simp)
    have ne: "r \<noteq> a" using alive by (simp add: r_def)
    have h1: "holds m1 a sz xs"
      using ho ne by (intro holds_cong[of m1 a m]) (simp_all add: m1_def)
    have b1: "blocks m1 r = Some (replicate sz None)" by (simp add: m1_def)
    from copy_loop_eq[OF h1 b1 ne, of 0 0]
    obtain m2 where c: "copy_loop m1 (Some r) (Some a) sz 0 0 = Some (m2, sz)"
      and b2: "blocks m2 r = Some (map Some xs)" and o2: "outcomes m2 = outcomes m1"
      by auto
    have "quicksort_functional key m arr sz = Some (m2, Some r)"
      by (simp add: quicksort_functional_base[OF True ma] ar c)
    moreover have "sort_key key xs = xs" using True len by (intro sort_key_short) simp
    moreover have "all_succeed (outcomes m2)" using o2 s1 by (simp add: m1_def)
    ultimately show ?thesis using b2 by simp
  next
    case False
    define pv where "pv = xs ! (sz div 2)"
    define L where "L = filter (\<lambda>x. key x < key pv) xs"
    define E where "E = filter (\<lambda>x. key x = key pv) xs"
    define G where "G = filter (\<lambda>x. key pv < key x) xs"
    define lb where "lb = fresh m"
    define eb where "eb = fresh m + 1"
    define gb where "gb = fresh m + 2"
    have "sz div 2 < sz" using False by simp
    then have pv: "load m arr (sz div 2) = Some pv"
      unfolding ar pv_def by (rule load_holds[OF ho])
    have cl: "count_loop key m arr sz (key pv) 0 (0, 0, 0) = Some (length L, length E, length G)"
      unfolding ar using count_loop_eq[OF ho, of 0 key "key pv" 0 0 0] by (simp add: L_def E_def G_def)
    define h1 where "h1 = snd (alloc (outcomes m))"
    define h2 where "h2 = snd (alloc h1)"
    define h3 where "h3 = snd (alloc h2)"
    have s: "fst (alloc (outcomes m))" "all_succeed h1" "fst (alloc h1)" "all_succeed h2"
      "fst (alloc h2)" "all_succeed h3"
      using s1 alloc_all_succeed[of h1] alloc_all_succeed[of h2] by (simp_all add: h1_def h2_def h3_def)
    define m1 where "m1 = m\<lparr>blocks := (blocks m)(lb \<mapsto> replicate (length L) None), fresh := fresh m + 1,
              outcomes := h1\<rparr>"
    define m2 where "m2 = m1\<lparr>blocks := (blocks m1)(eb \<mapsto> replicate (length E) None), fresh := fresh m1 + 1,
              outcomes := h2\<rparr>"
    define m3 where "m3 = m2\<lparr>blocks := (blocks m2)(gb \<mapsto> replicate (length G) None), fresh := fresh m2 + 1,
              outcomes := h3\<rparr>"
    have a1: "malloc m (length L) = (Some lb, m1)"
      unfolding lb_def m1_def h1_def by (rule malloc_ok[OF s(1)])
    have a2: "malloc m1 (length E) = (Some eb, m2)"
      using malloc_ok[of m1 "length E"] s(3) by (simp add: m1_def m2_def eb_def h2_def)
    have a3: "malloc m2 (length G) = (Some gb, m3)"
      using malloc_ok[of m2 "length G"] s(5) by (simp add: m1_def m2_def m3_def gb_def h3_def)
    have hk1: "heap_ok m1" using malloc_keeps[OF a1 hk] by simp
    have hk2: "heap_ok m2" using malloc_keeps[OF a2 hk1] by simp
    have hk3: "heap_ok m3" using malloc_keeps[OF a3 hk2] by simp
    have fr3: "fresh m3 = fresh m + 3" by (simp add: m1_def m2_def m3_def)
    have dist: "distinct [a, lb, eb, gb]" using alive by (simp add: lb_def eb_def gb_def)
    have nf: "\<not> ((length L > 0 \<and> Some lb = None) \<or> (length E > 0 \<and> Some eb = None)
         \<or> (length G > 0 \<and> Some gb = None))" by simp
    note unf = quicksort_functional_rec[OF False pv cl a1 a2 a3]
    have ho3: "holds m3 a sz xs"
      using ho dist by (intro holds_cong[of m3 a m]) (simp_all add: m1_def m2_def m3_def)
    have b3: "blocks m3 lb = Some (part_cells (\<lambda>x. key x < key pv) 0 xs)"
      "blocks m3 eb = Some (part_cells (\<lambda>x. key x = key pv) 0 xs)"
      "blocks m3 gb = Some (part_cells (\<lambda>x. key pv < key x) 0 xs)"
      using dist by (simp_all add: m1_def m2_def m3_def part_cells_def L_def E_def G_def)
    from fill_loop_eq[OF ho3 _ dist b3, of 0 0 0]
    obtain m4 where fl0: "fill_loop key m3 (Some a) sz (key pv) (Some lb) (Some eb) (Some gb) 0 (0, 0, 0) = Some m4"
      and b4: "blocks m4 lb = Some (map Some L)" "blocks m4 eb = Some (map Some E)" "blocks m4 gb = Some (map Some G)"
      and o4: "fresh m4 = fresh m3" "outcomes m4 = outcomes m3"
      by (auto simp: L_def E_def G_def)
    have fl: "fill_loop key m3 arr sz (key pv) (Some lb) (Some eb) (Some gb) 0 (0, 0, 0) = Some m4"
      using fl0 by (simp add: ar)
    have ab3: "above 0 (Some lb)" "above 0 (Some eb)" "above 0 (Some gb)"
      by (simp_all add: above_def)
    have hk4: "heap_ok m4" using fill_loop_keeps[OF fl ab3 hk3] by simp
    have su4: "all_succeed (outcomes m4)" using o4 s(6) by (simp add: m3_def)
    have hoL: "holds m4 lb (length L) L" using b4(1) by (rule holds_exact)
    from "1.IH"(1)[OF False pv cl refl refl a1[symmetric] a2[symmetric] a3[symmetric] nf fl hk4 su4 refl hoL]
    obtain m5 sl where q1: "quicksort_functional key m4 (Some lb) (length L) = Some (m5, Some sl)"
      and b5: "blocks m5 sl = Some (map Some (sort_key key L))" and su5: "all_succeed (outcomes m5)"
      by blast
    note k5 = quicksort_functional_keeps[OF q1 hk4]
    have hk5: "heap_ok m5" using k5 by simp
    have sl4: "fresh m4 \<le> sl" using k5 by (simp add: above_def)
    have lt4: "lb < fresh m4" "eb < fresh m4" "gb < fresh m4"
      by (simp_all add: o4 fr3 lb_def eb_def gb_def)
    have b5': "blocks m5 eb = Some (map Some E)" "blocks m5 gb = Some (map Some G)"
      using keeps_blocks[OF conjunct1[OF k5]] lt4 b4 by simp_all
    have hoG: "holds m5 gb (length G) G" using b5'(2) by (rule holds_exact)
    from "1.IH"(2)[OF False pv cl refl refl a1[symmetric] a2[symmetric] a3[symmetric] nf fl q1 refl hk5 su5 refl hoG]
    obtain m6 sg where q2: "quicksort_functional key m5 (Some gb) (length G) = Some (m6, Some sg)"
      and b6: "blocks m6 sg = Some (map Some (sort_key key G))" and su6: "all_succeed (outcomes m6)"
      by blast
    note k6 = quicksort_functional_keeps[OF q2 hk5]
    have hk6: "heap_ok m6" using k6 by simp
    have sg5: "fresh m5 \<le> sg" using k6 by (simp add: above_def)
    have f45: "fresh m4 \<le> fresh m5" using keeps_fresh[OF conjunct1[OF k5]] .
    have f56: "fresh m5 \<le> fresh m6" using keeps_fresh[OF conjunct1[OF k6]] .
    have sl5: "sl < fresh m5" using heap_okD[OF hk5 b5] .
    have sg6: "sg < fresh m6" using heap_okD[OF hk6 b6] .
    have b6': "blocks m6 sl = Some (map Some (sort_key key L))" "blocks m6 eb = Some (map Some E)"
      using keeps_blocks[OF conjunct1[OF k6]] sl5 lt4 f45 b5 b5' by simp_all
    have hs: "holds m6 sl (length L) (sort_key key L)" "holds m6 eb (length E) E"
      "holds m6 sg (length G) (sort_key key G)"
      using holds_exact[OF b6'(1)] holds_exact[OF b6'(2)] holds_exact[OF b6] by simp_all
    have s6: "fst (alloc (outcomes m6))" "all_succeed (snd (alloc (outcomes m6)))"
      using alloc_all_succeed[OF su6] by simp_all
    from merge_arrays_eq[OF hk6 s6(1) hs]
    obtain m7 where mg: "merge_arrays m6 (Some sl) (length L) (Some eb) (length E) (Some sg) (length G)
          = Some (m7, Some (fresh m6))"
      and b7: "blocks m7 (fresh m6) = Some (map Some (sort_key key L @ E @ sort_key key G))"
      and o7: "outcomes m7 = snd (alloc (outcomes m6))"
      by blast
    define res where "res = fresh m6"
    have far: "res \<noteq> lb" "res \<noteq> eb" "res \<noteq> gb" "res \<noteq> sl" "res \<noteq> sg"
      using lt4 f45 f56 sl5 sg6 by (simp_all add: res_def)
    define m8 where "m8 = free (free (free m7 (Some lb)) (Some eb)) (Some gb)"
    define m9 where "m9 = (if Some sl \<noteq> Some lb then free m8 (Some sl) else m8)"
    define m10 where "m10 = (if Some sg \<noteq> Some gb then free m9 (Some sg) else m9)"
    have b10: "blocks m10 res = blocks m7 res"
      using far by (simp add: m10_def m9_def m8_def blocks_free)
    have o10: "outcomes m10 = outcomes m7"
      by (simp add: m10_def m9_def m8_def)
    have qs: "sort_key key L @ E @ sort_key key G = sort_key key xs"
      unfolding L_def E_def G_def pv_def len[symmetric] by (rule sort_key_by_quicksort[symmetric])
    have "quicksort_functional key m arr sz = Some (m10, Some res)"
      unfolding unf using fl q1 q2 mg
      by (simp add: Let_def m8_def m9_def m10_def res_def)
    moreover have "blocks m10 res = Some (map Some (sort_key key xs))"
      using b10 b7 qs by (simp add: res_def)
    moreover have "all_succeed (outcomes m10)" using o10 o7 s6 by simp
    ultimately show ?thesis by blast
  qed
qed

section \<open>Sorted output\<close>

text \<open>
  What the development proves about the order of the output: the three in-place sorts
  that request no memory sort every array; the other four sort when their requests for
  memory succeed, \<open>radix_sort\<close> for non-negative values below \<open>1000000000\<close> and
  \<open>counting_sort\<close> for non-negative values below \<open>INT_MAX\<close>.
\<close>

lemma sorted_output:
  fixes ys :: "int list"
  shows "sorted (quicksort_inplace ys (length ys))"
    and "sorted (quicksort_three_way ys (length ys))"
    and "sorted (heap_sort ys (length ys))"
    and "all_succeed h \<Longrightarrow> sorted (map key (snd (mergesort key h arr (length arr))))"
    and "all_succeed h \<Longrightarrow> int32_nonneg key arr \<Longrightarrow> \<forall>x\<in>set arr. key x < 1000000000 \<Longrightarrow>
           \<exists>h' r. radix_sort key h arr (length arr) = Some (h', r) \<and> sorted (map key r)"
    and "all_succeed h \<Longrightarrow> int32_nonneg key arr \<Longrightarrow> \<forall>x\<in>set arr. key x < INT_MAX \<Longrightarrow>
           \<exists>h' r. counting_sort key h arr (length arr) = Some (h', r) \<and> sorted (map key r)"
    and "heap_ok m \<Longrightarrow> all_succeed (outcomes m) \<Longrightarrow> holds m a sz xs \<Longrightarrow>
           \<exists>m' r zs. quicksort_functional key m (Some a) sz = Some (m', Some r)
              \<and> blocks m' r = Some (map Some zs) \<and> sorted (map key zs)"
proof -
  show "sorted (quicksort_inplace ys (length ys))" by (rule quicksort_inplace_sorted)
  show "sorted (quicksort_three_way ys (length ys))" by (rule quicksort_three_way_sorted)
  show "sorted (heap_sort ys (length ys))" by (rule heap_sort_sorted)
  show "sorted (map key (snd (mergesort key h arr (length arr))))" if "all_succeed h"
    using that by (rule mergesort_sorted)
  show "\<exists>h' r. radix_sort key h arr (length arr) = Some (h', r) \<and> sorted (map key r)"
    if "all_succeed h" "int32_nonneg key arr" "\<forall>x\<in>set arr. key x < 1000000000"
  proof -
    from radix_sort_eq[OF that(2,3), of h] that(1)
    obtain h' where "radix_sort key h arr (length arr) = Some (h', sort_key key arr)" by auto
    then show ?thesis by simp
  qed
  show "\<exists>h' r. counting_sort key h arr (length arr) = Some (h', r) \<and> sorted (map key r)"
    if "all_succeed h" "int32_nonneg key arr" "\<forall>x\<in>set arr. key x < INT_MAX"
  proof -
    from counting_sort_eq[OF that(2), of h] that(1,3)
    obtain h' where "counting_sort key h arr (length arr) = Some (h', sort_key key arr)" by auto
    then show ?thesis by simp
  qed
  show "\<exists>m' r zs. quicksort_functional key m (Some a) sz = Some (m', Some r)
              \<and> blocks m' r = Some (map Some zs) \<and> sorted (map key zs)"
    if "heap_ok m" "all_succeed (outcomes m)" "holds m a sz xs"
  proof -
    from quicksort_functional_sorts[OF that(1,2) refl that(3), of key]
    obtain m' r where "quicksort_functional key m (Some a) sz = Some (m', Some r)"
      "blocks m' r = Some (map Some (sort_key key xs))"
      by blast
    moreover have "sorted (map key (sort_key key xs))" by simp
    ultimately show ?thesis by blast
  qed
qed

text \<open>
  The output as a permutation of the input, under the same bounds; for \<open>mergesort\<close>,
  \<open>radix_sort\<close> and \<open>counting_sort\<close> whatever the allocations do.
\<close>

lemma permuted_output:
  fixes ys :: "int list"
  shows "mset (quicksort_inplace ys (length ys)) = mset ys"
    and "mset (quicksort_three_way ys (length ys)) = mset ys"
    and "mset (heap_sort ys (length ys)) = mset ys"
    and "mset (snd (mergesort key h arr (length arr))) = mset arr"
    and "int32_nonneg key arr \<Longrightarrow> \<forall>x\<in>set arr. key x < 1000000000 \<Longrightarrow>
           \<exists>h' r. radix_sort key h arr (length arr) = Some (h', r) \<and> mset r = mset arr"
    and "int32_nonneg key arr \<Longrightarrow> \<forall>x\<in>set arr. key x < INT_MAX \<Longrightarrow>
           \<exists>h' r. counting_sort key h arr (length arr) = Some (h', r) \<and> mset r = mset arr"
    and "heap_ok m \<Longrightarrow> all_succeed (outcomes m) \<Longrightarrow> holds m a sz xs \<Longrightarrow>
           \<exists>m' r zs. quicksort_functional key m (Some a) sz = Some (m', Some r)
              \<and> blocks m' r = Some (map Some zs) \<and> mset zs = mset xs"
proof -
  show "mset (quicksort_inplace ys (length ys)) = mset ys" by (rule quicksort_inplace_mset)
  show "mset (quicksort_three_way ys (length ys)) = mset ys" by (rule quicksort_three_way_mset)
  show "mset (heap_sort ys (length ys)) = mset ys" by (rule heap_sort_mset)
  show "mset (snd (mergesort key h arr (length arr))) = mset arr" by (rule mergesort_mset)
  show "\<exists>h' r. radix_sort key h arr (length arr) = Some (h', r) \<and> mset r = mset arr"
    if "int32_nonneg key arr" "\<forall>x\<in>set arr. key x < 1000000000"
    using radix_sort_eq[OF that, of h] by blast
  show "\<exists>h' r. counting_sort key h arr (length arr) = Some (h', r) \<and> mset r = mset arr"
    if "int32_nonneg key arr" "\<forall>x\<in>set arr. key x < INT_MAX"
  proof -
    from counting_sort_eq[OF that(1), of h]
    obtain h' r where "counting_sort key h arr (length arr) = Some (h', r)" "r = arr \<or> r = sort_key key arr"
      by blast
    moreover from this(2) have "mset r = mset arr" by auto
    ultimately show ?thesis by blast
  qed
  show "\<exists>m' r zs. quicksort_functional key m (Some a) sz = Some (m', Some r)
              \<and> blocks m' r = Some (map Some zs) \<and> mset zs = mset xs"
    if "heap_ok m" "all_succeed (outcomes m)" "holds m a sz xs"
  proof -
    from quicksort_functional_sorts[OF that(1,2) refl that(3), of key]
    obtain m' r where "quicksort_functional key m (Some a) sz = Some (m', Some r)"
      "blocks m' r = Some (map Some (sort_key key xs))"
      by blast
    moreover have "mset (sort_key key xs) = mset xs" by simp
    ultimately show ?thesis by blast
  qed
qed

text \<open>
  The digit passes of \<open>radix_sort\<close>: a pass with a positive \<open>exp\<close> on non-negative
  values is the stable sort by the digit \<open>(value / exp) % 10\<close>; for values below
  \<open>1000000000\<close> the passes together are the stable sort by value.
\<close>

lemma radix_passes_stable:
  assumes "int32_nonneg key arr" and "all_succeed h"
  shows "0 < exp \<Longrightarrow>
           \<exists>r. counting_sort_by_digit key h arr (length arr) exp = Some (snd (alloc h), r)
              \<and> sorted (map (digit key exp) r) \<and> mset r = mset arr
              \<and> (\<forall>v. filter (\<lambda>x. digit key exp x = v) r = filter (\<lambda>x. digit key exp x = v) arr)"
    and "\<forall>x\<in>set arr. key x < 1000000000 \<Longrightarrow>
           \<exists>h' r. radix_sort key h arr (length arr) = Some (h', r)
              \<and> sorted (map key r) \<and> mset r = mset arr
              \<and> (\<forall>v. filter (\<lambda>x. key x = v) r = filter (\<lambda>x. key x = v) arr)"
proof -
  have k: "\<forall>x\<in>set arr. 0 \<le> key x" using int32_nonnegD[OF assms(1)] by auto
  show "\<exists>r. counting_sort_by_digit key h arr (length arr) exp = Some (snd (alloc h), r)
              \<and> sorted (map (digit key exp) r) \<and> mset r = mset arr
              \<and> (\<forall>v. filter (\<lambda>x. digit key exp x = v) r = filter (\<lambda>x. digit key exp x = v) arr)"
    if e: "0 < exp"
    using alloc_all_succeed[OF assms(2)]
    by (simp add: counting_sort_by_digit_eq[OF k e] sort_key_stable)
  show "\<exists>h' r. radix_sort key h arr (length arr) = Some (h', r)
              \<and> sorted (map key r) \<and> mset r = mset arr
              \<and> (\<forall>v. filter (\<lambda>x. key x = v) r = filter (\<lambda>x. key x = v) arr)"
    if b: "\<forall>x\<in>set arr. key x < 1000000000"
  proof -
    from radix_sort_eq[OF assms(1) b, of h] assms(2)
    obtain h' where "radix_sort key h arr (length arr) = Some (h', sort_key key arr)" by auto
    then show ?thesis by (simp add: sort_key_stable)
  qed
qed

text \<open>
  The loops.  An iteration of the three-way partition loop adds one to \<open>i\<close> or takes one
  from \<open>gt\<close>; after the loop \<open>low \<le> lt \<le> gt \<le> high\<close>, so the two recursive calls are
  on shorter ranges.  The digit loop of \<open>radix_sort\<close> ends with a result for values below
  \<open>1000000000\<close> and has none when a value is \<open>1000000000\<close> or more; \<open>counting_sort\<close>
  returns for values below \<open>INT_MAX\<close>.  The other loops and recursions are total
  functions, each defined with its measure.
\<close>

lemma loops_terminate:
  shows "int i \<le> gt \<Longrightarrow> three_way_step (arr, pivot, lt, i, gt) = (arr1, pivot1, lt1, i1, gt1) \<Longrightarrow>
            ((i1 = i + 1 \<and> gt1 = gt) \<or> (i1 = i \<and> gt1 = gt - 1))
            \<and> nat (gt1 + 1 - int i1) < nat (gt + 1 - int i)"
    and "low < high \<Longrightarrow> three_way_loop (ys, ys ! low, low, low + 1, int high) = (ys', lt', gt') \<Longrightarrow>
            low \<le> lt' \<and> int lt' \<le> gt' \<and> gt' \<le> int high
            \<and> (lt' - 1) - low < high - low \<and> high - nat (gt' + 1) < high - low"
    and "int32_nonneg key xs \<Longrightarrow> \<forall>x\<in>set xs. key x < 1000000000 \<Longrightarrow>
            \<exists>h' r. radix_sort key h xs (length xs) = Some (h', r)"
    and "int32_nonneg key xs \<Longrightarrow> 1 < length xs \<Longrightarrow> \<exists>x\<in>set xs. 1000000000 \<le> key x \<Longrightarrow>
            radix_sort key h xs (length xs) = None"
    and "int32_nonneg key xs \<Longrightarrow> \<forall>x\<in>set xs. key x < INT_MAX \<Longrightarrow>
            \<exists>h' r. counting_sort key h xs (length xs) = Some (h', r)"
proof -
  show "((i1 = i + 1 \<and> gt1 = gt) \<or> (i1 = i \<and> gt1 = gt - 1))
            \<and> nat (gt1 + 1 - int i1) < nat (gt + 1 - int i)"
    if "int i \<le> gt" "three_way_step (arr, pivot, lt, i, gt) = (arr1, pivot1, lt1, i1, gt1)"
    using that by (auto split: if_splits)
  show "low \<le> lt' \<and> int lt' \<le> gt' \<and> gt' \<le> int high
            \<and> (lt' - 1) - low < high - low \<and> high - nat (gt' + 1) < high - low"
    if lh: "low < high" and l: "three_way_loop (ys, ys ! low, low, low + 1, int high) = (ys', lt', gt')"
  proof -
    have b: "low \<le> lt' \<and> int lt' \<le> gt' \<and> int (low + 1) - 1 \<le> gt' \<and> gt' \<le> int high"
      using lh by (intro three_way_loop_bounds[OF l]) simp_all
    then show ?thesis using lh by linarith
  qed
  show "\<exists>h' r. radix_sort key h xs (length xs) = Some (h', r)"
    if "int32_nonneg key xs" "\<forall>x\<in>set xs. key x < 1000000000"
    using radix_sort_eq[OF that, of h] by blast
  show "radix_sort key h xs (length xs) = None"
    if n: "int32_nonneg key xs" and "1 < length xs" "\<exists>x\<in>set xs. 1000000000 \<le> key x"
  proof -
    have "\<forall>x\<in>set xs. 0 \<le> key x" using int32_nonnegD[OF n] by auto
    then show ?thesis using that(2,3) by (intro radix_sort_overflow)
  qed
  show "\<exists>h' r. counting_sort key h xs (length xs) = Some (h', r)"
    if "int32_nonneg key xs" "\<forall>x\<in>set xs. key x < INT_MAX"
    using counting_sort_eq[OF that(1), of h] by blast
qed

section \<open>The claims\<close>

text \<open>
  C5 (Lomuto partition postcondition).  For in-bounds indices \<open>low \<le> high\<close>,
  \<open>partition\<close> keeps the length, leaves every cell outside \<open>low..high\<close> as it was and
  permutes the cells inside; the index \<open>i\<close> it returns lies in \<open>low..high\<close>, the cell
  \<open>i\<close> holds the original \<open>arr[high]\<close> (the pivot), the cells \<open>low..i-1\<close> are at most
  the pivot and the cells \<open>i+1..high\<close> are at least (in fact greater than) the pivot.
\<close>

theorem partition_postcondition:
  assumes "low \<le> high" and "high < length arr" and "partition_arr arr low high = (arr', i)"
  shows "length arr' = length arr
       \<and> (\<forall>k. k < low \<or> high < k \<longrightarrow> arr' ! k = arr ! k)
       \<and> mset (sl arr' low (Suc high)) = mset (sl arr low (Suc high))
       \<and> low \<le> i \<and> i \<le> high
       \<and> arr' ! i = arr ! high
       \<and> (\<forall>k. low \<le> k \<and> k < i \<longrightarrow> arr' ! k \<le> arr' ! i)
       \<and> (\<forall>k. i < k \<and> k \<le> high \<longrightarrow> arr' ! i \<le> arr' ! k \<and> arr' ! i < arr' ! k)"
proof -
  note post = partition_arr_post[OF assms]
  have "mset (sl arr' low (Suc high)) = mset (sl arr low (Suc high))"
    using post assms(1,2) by (intro mset_sl_frame) auto
  then show ?thesis using post by auto
qed

theorem partition_postcondition_witness:
  "partition_arr [3, 1, 4, 1, 5, 9, 2, 6] 0 7 = ([3, 1, 4, 1, 5, 2, 6, 9], 6)
   \<and> sl [3, 1, 4, 1, 5, 2, 6, 9 :: int] 0 (Suc 7) = [3, 1, 4, 1, 5, 2, 6, 9]
   \<and> [3, 1, 4, 1, 5, 2, 6, 9 :: int] ! 6 = [3, 1, 4, 1, 5, 9, 2, 6] ! 7"
proof -
  have e: "partition_arr [3, 1, 4, 1, 5, 9, 2, 6] 0 7 = ([3, 1, 4, 1, 5, 2, 6, 9], 6)"
    by code_simp
  have "(0::nat) \<le> 7" and "7 < length [3, 1, 4, 1, 5, 9, 2, 6 :: int]" by simp_all
  from partition_postcondition[OF this e] e show ?thesis by (simp add: sl_def)
qed

text \<open>
  C3 (mergesort is stable).  When its allocations succeed, \<open>mergesort\<close> leaves the
  elements of every key in the order they had in the input: for each value \<open>v\<close> the
  elements with key \<open>v\<close>, read off the output, are those of the input in the same order.
  For elements tagged with their input index (\<open>zip xs [0..<length xs]\<close>, compared by the
  value alone) the tags of equal values come out increasing.  The merge step gives this:
  on equal heads the loop takes the left one, and a merge whose left run is sorted puts
  the elements of a key from the left run before those from the right run.
\<close>

theorem mergesort_is_stable:
  assumes "all_succeed h"
  shows "(\<forall>v. filter (\<lambda>x. key x = v) (snd (mergesort key h arr (length arr))) = filter (\<lambda>x. key x = v) arr)
     \<and> (\<forall>w. sorted_wrt (<) (map snd (filter (\<lambda>p. fst p = w)
            (snd (mergesort fst h (zip xs [0..<length xs]) (length (zip xs [0..<length xs])))))))
     \<and> (i < left_size \<and> j < right_size \<and> key (left_arr ! i) = key (right_arr ! j) \<longrightarrow>
          merge_main key arr left_arr left_size right_arr right_size i j k =
          merge_main key (arr[k := left_arr ! i]) left_arr left_size right_arr right_size (i + 1) j (k + 1))
     \<and> (left \<le> mid \<and> mid \<le> right \<and> right < length arr \<and> sorted (map key (sl arr left (Suc mid))) \<longrightarrow>
          (\<forall>v. filter (\<lambda>x. key x = v) (sl (snd (merge key h arr left mid right)) left (Suc right))
             = filter (\<lambda>x. key x = v) (sl arr left (Suc mid)) @ filter (\<lambda>x. key x = v) (sl arr (Suc mid) (Suc right))))"
proof (intro conjI allI impI)
  fix v
  show "filter (\<lambda>x. key x = v) (snd (mergesort key h arr (length arr))) = filter (\<lambda>x. key x = v) arr"
    by (rule mergesort_stable[OF assms])
next
  fix w
  let ?zs = "zip xs [0..<length xs]"
  have "sorted_wrt (<) (map snd ?zs)" by simp
  then have "sorted_wrt (\<lambda>a b. snd a < snd b) ?zs" by (simp only: sorted_wrt_map)
  then have "sorted_wrt (\<lambda>a b. snd a < snd b) (filter (\<lambda>p. fst p = w) ?zs)"
    by (rule sorted_wrt_filter)
  then have "sorted_wrt (<) (map snd (filter (\<lambda>p. fst p = w) ?zs))" by (simp only: sorted_wrt_map)
  then show "sorted_wrt (<) (map snd (filter (\<lambda>p. fst p = w) (snd (mergesort fst h ?zs (length ?zs)))))"
    by (simp only: mergesort_stable[OF assms])
next
  assume "i < left_size \<and> j < right_size \<and> key (left_arr ! i) = key (right_arr ! j)"
  then show "merge_main key arr left_arr left_size right_arr right_size i j k =
          merge_main key (arr[k := left_arr ! i]) left_arr left_size right_arr right_size (i + 1) j (k + 1)"
    by (subst merge_main.simps) simp
next
  fix v
  assume a: "left \<le> mid \<and> mid \<le> right \<and> right < length arr \<and> sorted (map key (sl arr left (Suc mid)))"
  then have l: "left \<le> mid" and m: "mid \<le> right" and r: "right < length arr" by auto
  show "filter (\<lambda>x. key x = v) (sl (snd (merge key h arr left mid right)) left (Suc right))
             = filter (\<lambda>x. key x = v) (sl arr left (Suc mid)) @ filter (\<lambda>x. key x = v) (sl arr (Suc mid) (Suc right))"
    using a by (simp add: merge_all_succeed(1)[OF l m r assms] merged_props(4)[OF l m r] filter_lmerge)
qed

theorem mergesort_is_stable_witness:
  "all_succeed [] \<and>
   snd (mergesort fst [] [(2::int, 0::nat), (1, 1), (2, 2), (1, 3)] 4) = [(1, 1), (1, 3), (2, 0), (2, 2)] \<and>
   filter (\<lambda>x. fst x = 2) (snd (mergesort fst [] [(2::int, 0::nat), (1, 1), (2, 2), (1, 3)] 4)) = [(2, 0), (2, 2)]"
proof -
  define L where "L = [(2::int, 0::nat), (1, 1), (2, 2), (1, 3)]"
  have e: "snd (mergesort fst [] [(2::int, 0::nat), (1, 1), (2, 2), (1, 3)] 4) = [(1, 1), (1, 3), (2, 0), (2, 2)]"
    by code_simp
  have "\<forall>v. filter (\<lambda>x. fst x = v) (snd (mergesort fst [] L (length L))) = filter (\<lambda>x. fst x = v) L"
    using mergesort_is_stable[OF all_succeed_Nil, where key = fst and arr = L] by (rule conjunct1)
  then have "filter (\<lambda>x. fst x = 2) (snd (mergesort fst [] L (length L))) = filter (\<lambda>x. fst x = 2) L"
    by (rule spec)
  moreover have "length L = 4" by (simp add: L_def)
  ultimately have "filter (\<lambda>x. fst x = 2) (snd (mergesort fst [] L 4)) = filter (\<lambda>x. fst x = 2) L"
    by (simp only:)
  then have "filter (\<lambda>x. fst x = 2) (snd (mergesort fst [] [(2::int, 0::nat), (1, 1), (2, 2), (1, 3)] 4))
      = [(2, 0), (2, 2)]"
    by (simp add: L_def)
  then show ?thesis using e by simp
qed

text \<open>
  C4 (radix sort).  \<open>radix_sort\<close> on the two non-negative values \<open>2147483647, 5\<close>,
  tagged with their input index.  Every digit pass is what the claim says, a stable sort
  by its digit: the first pass gives \<open>5, 2147483647\<close> and the pass with
  \<open>exp = 1000000000\<close> keeps that order.  After that pass \<open>exp *= RADIX\<close> goes past
  \<open>INT_MAX\<close>: the behaviour of the program is undefined from there and the sort as a
  whole has no result.
\<close>

theorem radix_sort_tagged_at_int_max:
  "int32_nonneg fst [(2147483647 :: int, 0 :: nat), (5, 1)] \<and> all_succeed []
   \<and> counting_sort_by_digit fst [] [(2147483647 :: int, 0 :: nat), (5, 1)] 2 1
        = Some ([], [(5, 1), (2147483647, 0)])
   \<and> counting_sort_by_digit fst [] [(5 :: int, 1 :: nat), (2147483647, 0)] 2 1000000000
        = Some ([], [(5, 1), (2147483647, 0)])
   \<and> 0 < (2147483647 :: int) sdiv 1000000000
   \<and> \<not> in_int (1000000000 * RADIX)
   \<and> radix_sort_loop fst [] [(5 :: int, 1 :: nat), (2147483647, 0)] 2 2147483647 1000000000 = None
   \<and> radix_sort fst [] [(2147483647 :: int, 0 :: nat), (5, 1)] 2 = None"
proof -
  have "int32_nonneg fst [(2147483647 :: int, 0 :: nat), (5, 1)]"
    by (simp add: int32_nonneg_def INT_MAX_def)
  moreover have "counting_sort_by_digit fst [] [(2147483647 :: int, 0 :: nat), (5, 1)] 2 1
        = Some ([], [(5, 1), (2147483647, 0)])"
    by code_simp
  moreover have "counting_sort_by_digit fst [] [(5 :: int, 1 :: nat), (2147483647, 0)] 2 1000000000
        = Some ([], [(5, 1), (2147483647, 0)])"
    by code_simp
  moreover have "0 < (2147483647 :: int) sdiv 1000000000" by code_simp
  moreover have "\<not> in_int (1000000000 * RADIX)" by (simp add: in_int_def RADIX_def INT_MAX_def)
  moreover have "radix_sort_loop fst [] [(5 :: int, 1 :: nat), (2147483647, 0)] 2 2147483647 1000000000 = None"
    by code_simp
  moreover have "radix_sort fst [] [(2147483647 :: int, 0 :: nat), (5, 1)] 2 = None"
    by code_simp
  ultimately show ?thesis by simp
qed

text \<open>
  C7 (\<open>quicksort_functional\<close> leaves its input alone).  Let the input buffer be a live
  block at \<open>a\<close> holding \<open>xs\<close> in its first \<open>sz\<close> cells.  Whatever the allocations do,
  a call that returns leaves the block at \<open>a\<close> exactly as it was and does not return
  \<open>a\<close>.  When every allocation succeeds, the call returns a pointer to a block that was
  not live before the call, is not the input block, and has exactly \<open>sz\<close> cells, all
  written.
\<close>

theorem quicksort_functional_input_untouched:
  assumes "heap_ok m" and "holds m a sz xs"
  shows "(\<forall>m' r. quicksort_functional key m (Some a) sz = Some (m', r) \<longrightarrow>
            blocks m' a = blocks m a \<and> r \<noteq> Some a)
       \<and> (all_succeed (outcomes m) \<longrightarrow>
            (\<exists>m' r ys. quicksort_functional key m (Some a) sz = Some (m', Some r)
               \<and> r \<noteq> a \<and> blocks m r = None
               \<and> blocks m' r = Some (map Some ys) \<and> length ys = sz
               \<and> blocks m' a = blocks m a))"
proof -
  have alive: "a < fresh m" using holds_live[OF assms(2,1)] .
  have one: "blocks m' a = blocks m a \<and> r \<noteq> Some a"
    if q: "quicksort_functional key m (Some a) sz = Some (m', r)" for m' r
  proof -
    note k = quicksort_functional_keeps[OF q assms(1)]
    have "blocks m' a = blocks m a" using keeps_blocks[OF conjunct1[OF k] alive] .
    moreover have "r \<noteq> Some a" using k alive by (auto simp: above_def)
    ultimately show ?thesis ..
  qed
  have two: "\<exists>m' r ys. quicksort_functional key m (Some a) sz = Some (m', Some r)
               \<and> r \<noteq> a \<and> blocks m r = None
               \<and> blocks m' r = Some (map Some ys) \<and> length ys = sz
               \<and> blocks m' a = blocks m a"
    if su: "all_succeed (outcomes m)"
  proof -
    from quicksort_functional_sorts[OF assms(1) su refl assms(2), of key]
    obtain m' r where q: "quicksort_functional key m (Some a) sz = Some (m', Some r)"
      and b: "blocks m' r = Some (map Some (sort_key key xs))"
      by blast
    note k = quicksort_functional_keeps[OF q assms(1)]
    have ge: "fresh m \<le> r" using k by (simp add: above_def)
    have "r \<noteq> a" using ge alive by simp
    moreover have "blocks m r = None"
    proof (rule ccontr)
      assume "blocks m r \<noteq> None"
      then obtain c where "blocks m r = Some c" by auto
      from heap_okD[OF assms(1) this] ge show False by simp
    qed
    moreover have "length (sort_key key xs) = sz" using holds_length[OF assms(2)] by simp
    moreover have "blocks m' a = blocks m a" using keeps_blocks[OF conjunct1[OF k] alive] .
    ultimately show ?thesis using q b by blast
  qed
  from one two show ?thesis by blast
qed

theorem quicksort_functional_input_untouched_witness:
  "heap_ok \<lparr>blocks = [0 \<mapsto> map Some [3, 1, 2 :: int]], fresh = 1, outcomes = []\<rparr>
   \<and> holds \<lparr>blocks = [0 \<mapsto> map Some [3, 1, 2 :: int]], fresh = 1, outcomes = []\<rparr> 0 3 [3, 1, 2]
   \<and> all_succeed (outcomes \<lparr>blocks = [0 \<mapsto> map Some [3, 1, 2 :: int]], fresh = 1, outcomes = []\<rparr>)
   \<and> (\<exists>m' r ys. quicksort_functional (\<lambda>x. x)
           \<lparr>blocks = [0 \<mapsto> map Some [3, 1, 2 :: int]], fresh = 1, outcomes = []\<rparr> (Some 0) 3 = Some (m', Some r)
         \<and> r \<noteq> 0 \<and> blocks m' r = Some (map Some ys) \<and> length ys = 3
         \<and> blocks m' 0 = Some (map Some [3, 1, 2]))
   \<and> map_option (\<lambda>(m', r). (r, blocks m' (the r), blocks m' 0))
        (quicksort_functional (\<lambda>x. x)
           \<lparr>blocks = [0 \<mapsto> map Some [3, 1, 2 :: int]], fresh = 1, outcomes = []\<rparr> (Some 0) 3)
      = Some (Some 11, Some [Some 1, Some 2, Some 3], Some [Some 3, Some 1, Some 2])"
proof -
  define m where "m = \<lparr>blocks = [0 \<mapsto> map Some [3, 1, 2 :: int]], fresh = 1, outcomes = []\<rparr>"
  have h: "heap_ok m" by (simp add: heap_ok_def m_def)
  have o: "holds m 0 3 [3, 1, 2]" by (simp add: holds_def m_def)
  have s: "all_succeed (outcomes m)" by (simp add: m_def)
  have e: "map_option (\<lambda>(m', r). (r, blocks m' (the r), blocks m' 0))
        (quicksort_functional (\<lambda>x. x) m (Some 0) 3)
      = Some (Some 11, Some [Some 1, Some 2, Some 3], Some [Some 3, Some 1, Some 2])"
    unfolding m_def by code_simp
  have b: "blocks m 0 = Some (map Some [3, 1, 2])" by (simp add: m_def)
  from quicksort_functional_input_untouched[OF h o, of "\<lambda>x. x"] s
  have "\<exists>m' r ys. quicksort_functional (\<lambda>x. x) m (Some 0) 3 = Some (m', Some r)
         \<and> r \<noteq> 0 \<and> blocks m' r = Some (map Some ys) \<and> length ys = 3
         \<and> blocks m' 0 = Some (map Some [3, 1, 2])"
    unfolding b by blast
  then show ?thesis using h o s e unfolding m_def by blast
qed

text \<open>
  C10 (\<open>quicksort_functional\<close> is stable).  When every allocation succeeds, the buffer
  that \<open>quicksort_functional\<close> returns is sorted by key and holds, for each value \<open>v\<close>,
  the elements with key \<open>v\<close> in the order they had in the input; for elements that
  carry their input index as a tag, the tags of equal values come out increasing.
  \<open>merge_arrays\<close> writes its three arguments one after the other.
\<close>

theorem quicksort_functional_is_stable:
  assumes "heap_ok m" and "all_succeed (outcomes m)" and "holds m a sz xs"
  shows "(\<exists>m' r ys. quicksort_functional key m (Some a) sz = Some (m', Some r)
            \<and> blocks m' r = Some (map Some ys)
            \<and> sorted (map key ys)
            \<and> (\<forall>v. filter (\<lambda>x. key x = v) ys = filter (\<lambda>x. key x = v) xs)
            \<and> ((\<forall>i<length xs. tag (xs ! i) = i) \<longrightarrow>
                 (\<forall>v. sorted_wrt (<) (map tag (filter (\<lambda>x. key x = v) ys)))))
       \<and> (holds m a1 n1 ys1 \<and> holds m a2 n2 ys2 \<and> holds m a3 n3 ys3 \<longrightarrow>
            (\<exists>m' r. merge_arrays m (Some a1) n1 (Some a2) n2 (Some a3) n3 = Some (m', Some r)
               \<and> blocks m' r = Some (map Some (ys1 @ ys2 @ ys3))))"
proof (intro conjI impI)
  from quicksort_functional_sorts[OF assms(1,2) refl assms(3), of key]
  obtain m' r where q: "quicksort_functional key m (Some a) sz = Some (m', Some r)"
    and b: "blocks m' r = Some (map Some (sort_key key xs))"
    by blast
  have st: "\<forall>v. filter (\<lambda>x. key x = v) (sort_key key xs) = filter (\<lambda>x. key x = v) xs"
    by (simp add: sort_key_stable)
  have tg: "(\<forall>i<length xs. tag (xs ! i) = i) \<longrightarrow>
      (\<forall>v. sorted_wrt (<) (map tag (filter (\<lambda>x. key x = v) (sort_key key xs))))"
  proof (intro impI allI)
    fix v
    assume t: "\<forall>i<length xs. tag (xs ! i) = i"
    have "map tag xs = [0..<length xs]" using t by (intro nth_equalityI) simp_all
    then have "sorted_wrt (<) (map tag xs)" by simp
    then have "sorted_wrt (\<lambda>x y. tag x < tag y) xs" by (simp only: sorted_wrt_map)
    then have "sorted_wrt (\<lambda>x y. tag x < tag y) (filter (\<lambda>x. key x = v) xs)" by (rule sorted_wrt_filter)
    then have "sorted_wrt (<) (map tag (filter (\<lambda>x. key x = v) xs))" by (simp only: sorted_wrt_map)
    then show "sorted_wrt (<) (map tag (filter (\<lambda>x. key x = v) (sort_key key xs)))"
      using st by simp
  qed
  have "sorted (map key (sort_key key xs))" by simp
  then show "\<exists>m' r ys. quicksort_functional key m (Some a) sz = Some (m', Some r)
            \<and> blocks m' r = Some (map Some ys)
            \<and> sorted (map key ys)
            \<and> (\<forall>v. filter (\<lambda>x. key x = v) ys = filter (\<lambda>x. key x = v) xs)
            \<and> ((\<forall>i<length xs. tag (xs ! i) = i) \<longrightarrow>
                 (\<forall>v. sorted_wrt (<) (map tag (filter (\<lambda>x. key x = v) ys))))"
    using q b st tg by blast
next
  assume h: "holds m a1 n1 ys1 \<and> holds m a2 n2 ys2 \<and> holds m a3 n3 ys3"
  have f: "fst (alloc (outcomes m))" using alloc_all_succeed[OF assms(2)] by simp
  from h have h1: "holds m a1 n1 ys1" and h2: "holds m a2 n2 ys2" and h3: "holds m a3 n3 ys3"
    by simp_all
  from merge_arrays_eq[OF assms(1) f h1 h2 h3]
  show "\<exists>m' r. merge_arrays m (Some a1) n1 (Some a2) n2 (Some a3) n3 = Some (m', Some r)
               \<and> blocks m' r = Some (map Some (ys1 @ ys2 @ ys3))"
    by blast
qed

theorem quicksort_functional_is_stable_witness:
  "heap_ok \<lparr>blocks = [0 \<mapsto> map Some [(2 :: int, 0 :: nat), (1, 1), (2, 2), (1, 3)]], fresh = 1, outcomes = []\<rparr>
   \<and> all_succeed (outcomes \<lparr>blocks = [0 \<mapsto> map Some [(2 :: int, 0 :: nat), (1, 1), (2, 2), (1, 3)]],
         fresh = 1, outcomes = []\<rparr>)
   \<and> holds \<lparr>blocks = [0 \<mapsto> map Some [(2 :: int, 0 :: nat), (1, 1), (2, 2), (1, 3)]], fresh = 1, outcomes = []\<rparr>
        0 4 [(2, 0), (1, 1), (2, 2), (1, 3)]
   \<and> (\<exists>m' r ys. quicksort_functional fst
          \<lparr>blocks = [0 \<mapsto> map Some [(2 :: int, 0 :: nat), (1, 1), (2, 2), (1, 3)]], fresh = 1, outcomes = []\<rparr>
          (Some 0) 4 = Some (m', Some r)
        \<and> blocks m' r = Some (map Some ys) \<and> sorted (map fst ys)
        \<and> filter (\<lambda>x. fst x = 2) ys = [(2, 0), (2, 2)])
   \<and> map_option (\<lambda>(m', r). blocks m' (the r))
        (quicksort_functional fst
          \<lparr>blocks = [0 \<mapsto> map Some [(2 :: int, 0 :: nat), (1, 1), (2, 2), (1, 3)]], fresh = 1, outcomes = []\<rparr>
          (Some 0) 4)
      = Some (Some [Some (1, 1), Some (1, 3), Some (2, 0), Some (2, 2)])"
proof -
  define xs where "xs = [(2 :: int, 0 :: nat), (1, 1), (2, 2), (1, 3)]"
  define m where "m = \<lparr>blocks = [0 \<mapsto> map Some xs], fresh = 1, outcomes = []\<rparr>"
  have h: "heap_ok m" by (simp add: heap_ok_def m_def)
  have s: "all_succeed (outcomes m)" by (simp add: m_def)
  have o: "holds m 0 4 xs" by (simp add: holds_def m_def xs_def)
  have e: "map_option (\<lambda>(m', r). blocks m' (the r)) (quicksort_functional fst m (Some 0) 4)
      = Some (Some [Some (1, 1), Some (1, 3), Some (2, 0), Some (2, 2)])"
    unfolding m_def xs_def by code_simp
  from quicksort_functional_is_stable[OF h s o, of fst]
  obtain m' r ys where q: "quicksort_functional fst m (Some 0) 4 = Some (m', Some r)"
    and b: "blocks m' r = Some (map Some ys)" and so: "sorted (map fst ys)"
    and f: "\<forall>v. filter (\<lambda>x. fst x = v) ys = filter (\<lambda>x. fst x = v) xs"
    by blast
  have "filter (\<lambda>x. fst x = 2) ys = [(2, 0), (2, 2)]" using f by (simp add: xs_def)
  then have "\<exists>m' r ys. quicksort_functional fst m (Some 0) 4 = Some (m', Some r)
        \<and> blocks m' r = Some (map Some ys) \<and> sorted (map fst ys)
        \<and> filter (\<lambda>x. fst x = 2) ys = [(2, 0), (2, 2)]"
    using q b so by blast
  then show ?thesis using h s o e unfolding m_def xs_def by blast
qed

text \<open>
  C2 (permutation).  \<open>radix_sort\<close> on the two non-negative values \<open>1410065408, 5\<close>:
  the maximum is not below \<open>1000000000\<close>, so the loop runs the pass with
  \<open>exp = 1000000000\<close> and then computes \<open>exp *= RADIX\<close>, which does not fit an \<open>int\<close>.
  The behaviour of the program is undefined from there: the sort has no result, and
  nothing in the code keeps the array a permutation of the input.
\<close>

theorem radix_sort_at_1410065408:
  "int32_nonneg id [1410065408, 5 :: int] \<and> all_succeed []
   \<and> find_max id [1410065408, 5 :: int] 2 = 1410065408
   \<and> 0 < (1410065408 :: int) sdiv 1000000000
   \<and> \<not> in_int (1000000000 * RADIX)
   \<and> radix_sort id [] [1410065408, 5 :: int] 2 = None"
proof -
  have "int32_nonneg id [1410065408, 5 :: int]" by (simp add: int32_nonneg_def INT_MAX_def)
  moreover have "find_max id [1410065408, 5 :: int] 2 = 1410065408" by code_simp
  moreover have "0 < (1410065408 :: int) sdiv 1000000000" by code_simp
  moreover have "\<not> in_int (1000000000 * RADIX)" by (simp add: in_int_def RADIX_def INT_MAX_def)
  moreover have "radix_sort id [] [1410065408, 5 :: int] 2 = None" by code_simp
  ultimately show ?thesis by simp
qed

text \<open>
  C8 (empty and one-element arrays).  Every sort returns an empty array and a
  one-element array as it received it; the in-place sorts return before they request
  memory, so no allocation can fail there.  \<open>quicksort_functional\<close> requests one buffer
  of \<open>size\<close> elements and, given it, returns it with a copy of the input, the input
  block left as it was.
\<close>

theorem empty_and_singleton_unchanged:
  shows "quicksort_inplace [] 0 = [] \<and> quicksort_inplace [x] 1 = [x]
       \<and> quicksort_three_way [] 0 = [] \<and> quicksort_three_way [x] 1 = [x]
       \<and> heap_sort [] 0 = [] \<and> heap_sort [x] 1 = [x]
       \<and> mergesort key h [] 0 = (h, []) \<and> mergesort key h [y] 1 = (h, [y])
       \<and> radix_sort key h [] 0 = Some (h, []) \<and> radix_sort key h [y] 1 = Some (h, [y])
       \<and> counting_sort key h [] 0 = Some (h, []) \<and> counting_sort key h [y] 1 = Some (h, [y])
       \<and> (heap_ok m \<and> fst (alloc (outcomes m)) \<and> holds m a sz xs \<and> sz \<le> 1 \<longrightarrow>
            (\<exists>m' r. quicksort_functional key m (Some a) sz = Some (m', Some r)
               \<and> r \<noteq> a \<and> blocks m' r = Some (map Some xs) \<and> blocks m' a = blocks m a))"
proof -
  have fn: "\<exists>m' r. quicksort_functional key m (Some a) sz = Some (m', Some r)
               \<and> r \<noteq> a \<and> blocks m' r = Some (map Some xs) \<and> blocks m' a = blocks m a"
    if p: "heap_ok m \<and> fst (alloc (outcomes m)) \<and> holds m a sz xs \<and> sz \<le> 1"
  proof -
    from p have hk: "heap_ok m" and f: "fst (alloc (outcomes m))" and ho: "holds m a sz xs"
      and small: "sz \<le> 1"
      by simp_all
    define r where "r = fresh m"
    define m1 where "m1 = m\<lparr>blocks := (blocks m)(r \<mapsto> replicate sz None), fresh := fresh m + 1,
              outcomes := snd (alloc (outcomes m))\<rparr>"
    have ma: "malloc m sz = (Some r, m1)"
      unfolding r_def m1_def by (rule malloc_ok[OF f])
    have ne: "r \<noteq> a" using holds_live[OF ho hk] by (simp add: r_def)
    have h1: "holds m1 a sz xs"
      using ho ne by (intro holds_cong[of m1 a m]) (simp_all add: m1_def)
    have b1: "blocks m1 r = Some (replicate sz None)" by (simp add: m1_def)
    from copy_loop_eq[OF h1 b1 ne, of 0 0]
    obtain m2 where c: "copy_loop m1 (Some r) (Some a) sz 0 0 = Some (m2, sz)"
      and b2: "blocks m2 r = Some (map Some xs)"
      and fr: "\<forall>q. q \<noteq> r \<longrightarrow> blocks m2 q = blocks m1 q"
      by auto
    have "quicksort_functional key m (Some a) sz = Some (m2, Some r)"
      by (simp add: quicksort_functional_base[OF small ma] c)
    moreover have "blocks m2 a = blocks m a" using fr ne by (simp add: m1_def)
    ultimately show ?thesis using ne b2 by blast
  qed
  have "quicksort_inplace [] 0 = [] \<and> quicksort_inplace [x] 1 = [x]
       \<and> quicksort_three_way [] 0 = [] \<and> quicksort_three_way [x] 1 = [x]
       \<and> heap_sort [] 0 = [] \<and> heap_sort [x] 1 = [x]"
    by (simp add: quicksort_inplace_def quicksort_three_way_def heap_sort_def)
  moreover have "mergesort key h [] 0 = (h, []) \<and> mergesort key h [y] 1 = (h, [y])
       \<and> radix_sort key h [] 0 = Some (h, []) \<and> radix_sort key h [y] 1 = Some (h, [y])
       \<and> counting_sort key h [] 0 = Some (h, []) \<and> counting_sort key h [y] 1 = Some (h, [y])"
    by (simp add: mergesort_def radix_sort_def counting_sort_def)
  ultimately show ?thesis using fn by blast
qed

theorem empty_and_singleton_unchanged_witness:
  "heap_ok \<lparr>blocks = [0 \<mapsto> map Some [42 :: int]], fresh = 1, outcomes = []\<rparr>
   \<and> fst (alloc (outcomes \<lparr>blocks = [0 \<mapsto> map Some [42 :: int]], fresh = 1, outcomes = []\<rparr>))
   \<and> holds \<lparr>blocks = [0 \<mapsto> map Some [42 :: int]], fresh = 1, outcomes = []\<rparr> 0 1 [42]
   \<and> (1 :: nat) \<le> 1
   \<and> (\<exists>m' r. quicksort_functional (\<lambda>x. x)
           \<lparr>blocks = [0 \<mapsto> map Some [42 :: int]], fresh = 1, outcomes = []\<rparr> (Some 0) 1 = Some (m', Some r)
         \<and> r \<noteq> 0 \<and> blocks m' r = Some (map Some [42]))
   \<and> map_option (\<lambda>(m', r). (r, blocks m' (the r), blocks m' 0))
        (quicksort_functional (\<lambda>x. x)
           \<lparr>blocks = [0 \<mapsto> map Some [42 :: int]], fresh = 1, outcomes = []\<rparr> (Some 0) 1)
      = Some (Some 1, Some [Some 42], Some [Some 42])
   \<and> map_option (\<lambda>(m', r). (r, blocks m' (the r)))
        (quicksort_functional (\<lambda>x. x)
           \<lparr>blocks = [0 \<mapsto> map Some ([] :: int list)], fresh = 1, outcomes = []\<rparr> (Some 0) 0)
      = Some (Some 1, Some [])"
proof -
  define m where "m = \<lparr>blocks = [0 \<mapsto> map Some [42 :: int]], fresh = 1, outcomes = []\<rparr>"
  have h: "heap_ok m" by (simp add: heap_ok_def m_def)
  have s: "fst (alloc (outcomes m))" by (simp add: m_def)
  have o: "holds m 0 1 [42]" by (simp add: holds_def m_def)
  have e1: "map_option (\<lambda>(m', r). (r, blocks m' (the r), blocks m' 0))
        (quicksort_functional (\<lambda>x. x) m (Some 0) 1)
      = Some (Some 1, Some [Some 42], Some [Some 42])"
    unfolding m_def by code_simp
  have e2: "map_option (\<lambda>(m', r). (r, blocks m' (the r)))
        (quicksort_functional (\<lambda>x. x)
           \<lparr>blocks = [0 \<mapsto> map Some ([] :: int list)], fresh = 1, outcomes = []\<rparr> (Some 0) 0)
      = Some (Some 1, Some [])"
    by code_simp
  from empty_and_singleton_unchanged[of _ "\<lambda>x. x" _ _ m 0 1 "[42]"] h s o
  have "\<exists>m' r. quicksort_functional (\<lambda>x. x) m (Some 0) 1 = Some (m', Some r)
         \<and> r \<noteq> 0 \<and> blocks m' r = Some (map Some [42])"
    by blast
  then show ?thesis using h s o e1 e2 unfolding m_def by blast
qed

text \<open>
  C6 (termination).  \<open>radix_sort\<close> on the two non-negative values \<open>2147483647, 5\<close>:
  the digit loop is still running at \<open>exp = 1000000000\<close> (\<open>max / exp > 0\<close>), and its
  step \<open>exp *= RADIX\<close> then goes past \<open>INT_MAX\<close>.  The loop does not come to its end
  with a result, whatever the allocations do; on \<open>999999999, 5\<close> it does.
\<close>

theorem radix_sort_loop_no_result:
  "int32_nonneg id [2147483647, 5 :: int]
   \<and> find_max id [2147483647, 5 :: int] 2 = INT_MAX
   \<and> 0 < INT_MAX sdiv 1000000000
   \<and> \<not> in_int (1000000000 * RADIX)
   \<and> radix_sort id [] [2147483647, 5 :: int] 2 = None
   \<and> radix_sort id [False, False, False, False, False, False, False, False, False, False]
         [2147483647, 5 :: int] 2 = None
   \<and> radix_sort id [] [999999999, 5 :: int] 2 = Some ([], [5, 999999999])"
proof -
  have "int32_nonneg id [2147483647, 5 :: int]" by (simp add: int32_nonneg_def INT_MAX_def)
  moreover have "find_max id [2147483647, 5 :: int] 2 = INT_MAX" by code_simp
  moreover have "0 < INT_MAX sdiv 1000000000" by code_simp
  moreover have "\<not> in_int (1000000000 * RADIX)" by (simp add: in_int_def RADIX_def INT_MAX_def)
  moreover have "radix_sort id [] [2147483647, 5 :: int] 2 = None" by code_simp
  moreover have "radix_sort id [False, False, False, False, False, False, False, False, False, False]
         [2147483647, 5 :: int] 2 = None"
    by code_simp
  moreover have "radix_sort id [] [999999999, 5 :: int] 2 = Some ([], [5, 999999999])" by code_simp
  ultimately show ?thesis by simp
qed

text \<open>
  C1 (sorted output).  \<open>counting_sort\<close> on the two non-negative values
  \<open>2147483647, 0\<close>: \<open>max + 1\<close> does not fit an \<open>int\<close> and comes out negative, the
  request for the count array fails although memory is available, and the function
  returns with the array as it was, which is not sorted.  (On values below \<open>INT_MAX\<close>
  the output of \<open>counting_sort\<close> is sorted: lemma \<open>sorted_output\<close>.)
\<close>

theorem counting_sort_at_int_max:
  "int32_nonneg id [2147483647, 0 :: int] \<and> all_succeed []
   \<and> find_max id [2147483647, 0 :: int] 2 = INT_MAX
   \<and> wrap32 (INT_MAX + 1) = - 2147483648
   \<and> counting_sort id [] [2147483647, 0 :: int] 2 = Some ([], [2147483647, 0])
   \<and> \<not> sorted [2147483647, 0 :: int]"
proof -
  have "int32_nonneg id [2147483647, 0 :: int]" by (simp add: int32_nonneg_def INT_MAX_def)
  moreover have "find_max id [2147483647, 0 :: int] 2 = INT_MAX" by code_simp
  moreover have "wrap32 (INT_MAX + 1) = - 2147483648" by (simp add: wrap32_def INT_MAX_def)
  moreover have "counting_sort id [] [2147483647, 0 :: int] 2 = Some ([], [2147483647, 0])" by code_simp
  ultimately show ?thesis by simp
qed

text \<open>
  C9 (allocation failure), as the claim states it: \<open>mergesort\<close> on \<open>4, 3, 2, 1\<close> when
  its fifth request fails.  The two inner merges have run, the last one has returned
  without merging; the array has changed and is not sorted, and \<open>mergesort\<close>, a
  \<open>void\<close> function, hands nothing else back.
\<close>

theorem mergesort_failure_partly_sorted:
  "\<not> all_succeed [True, True, True, True, False]
   \<and> mergesort id [True, True, True, True, False] [4, 3, 2, 1 :: int] 4 = ([], [3, 4, 1, 2])
   \<and> [3, 4, 1, 2] \<noteq> [4, 3, 2, 1 :: int] \<and> \<not> sorted [3, 4, 1, 2 :: int]"
proof -
  have "mergesort id [True, True, True, True, False] [4, 3, 2, 1 :: int] 4 = ([], [3, 4, 1, 2])"
    by code_simp
  then show ?thesis by (simp add: all_succeed_def)
qed

text \<open>
  C9, amended.  When one of its two requests fails, \<open>merge\<close> returns with the array as
  it was at that call, and so does a digit pass of \<open>radix_sort\<close> when its request
  fails; \<open>counting_sort\<close> (values below \<open>INT_MAX\<close>) returns the array either as it was
  or sorted.  The sorts go on and return as usual, so after \<open>mergesort\<close>, after
  \<open>radix_sort\<close> (values below \<open>1000000000\<close>) and after \<open>counting_sort\<close> the array has
  the elements of the input and its length, whatever the allocations did.  A call of
  \<open>quicksort_functional\<close> returns \<open>NULL\<close>, with its input as it was, when the request
  that this call itself makes for the copy of the base case fails, and when a request
  that this call itself makes for a partition buffer that is not empty fails (the
  buffer of the elements equal to the pivot is never empty).
\<close>

theorem allocation_failure_behaviour:
  shows "(left \<le> mid \<and> mid \<le> right \<and> right < length arr
            \<and> \<not> (fst (alloc h) \<and> fst (alloc (snd (alloc h)))) \<longrightarrow>
            merge key h arr left mid right = (snd (alloc (snd (alloc h))), arr))
       \<and> mset (snd (mergesort key h arr (length arr))) = mset arr
       \<and> length (snd (mergesort key h arr (length arr))) = length arr
       \<and> (\<not> fst (alloc h) \<longrightarrow> counting_sort_by_digit key h arr sz exp = Some (snd (alloc h), arr))
       \<and> (int32_nonneg key arr \<and> (\<forall>x\<in>set arr. key x < 1000000000) \<longrightarrow>
            (\<exists>h' r. radix_sort key h arr (length arr) = Some (h', r)
                \<and> mset r = mset arr \<and> length r = length arr))
       \<and> (int32_nonneg key arr \<and> (\<forall>x\<in>set arr. key x < INT_MAX) \<longrightarrow>
            (\<exists>h' r. counting_sort key h arr (length arr) = Some (h', r)
                \<and> (r = arr \<or> r = sort_key key arr)))
       \<and> (n \<le> 1 \<and> \<not> fst (alloc (outcomes m)) \<longrightarrow>
            (\<exists>m'. quicksort_functional key m p n = Some (m', None) \<and> blocks m' = blocks m))
       \<and> (heap_ok m \<and> holds m a n xs \<and> 1 < n
            \<and> ((filter (\<lambda>x. key x < key (xs ! (n div 2))) xs \<noteq> [] \<and> \<not> fst (alloc (outcomes m)))
               \<or> \<not> fst (alloc (snd (alloc (outcomes m))))
               \<or> (filter (\<lambda>x. key (xs ! (n div 2)) < key x) xs \<noteq> []
                    \<and> \<not> fst (alloc (snd (alloc (snd (alloc (outcomes m)))))))) \<longrightarrow>
            (\<exists>m'. quicksort_functional key m (Some a) n = Some (m', None) \<and> blocks m' a = blocks m a))"
proof -
  have A: "merge key h arr left mid right = (snd (alloc (snd (alloc h))), arr)"
    if "left \<le> mid \<and> mid \<le> right \<and> right < length arr \<and> \<not> (fst (alloc h) \<and> fst (alloc (snd (alloc h))))"
  proof -
    from that have b: "left \<le> mid" "mid \<le> right" "right < length arr" by simp_all
    from that show ?thesis by (auto simp: merge_eq[OF b])
  qed
  have C: "counting_sort_by_digit key h arr sz exp = Some (snd (alloc h), arr)" if "\<not> fst (alloc h)"
    using that by (cases "alloc h") (simp add: counting_sort_by_digit_def)
  have D: "\<exists>h' r. radix_sort key h arr (length arr) = Some (h', r)
                \<and> mset r = mset arr \<and> length r = length arr"
    if nn: "int32_nonneg key arr \<and> (\<forall>x\<in>set arr. key x < 1000000000)"
  proof -
    from nn have n1: "int32_nonneg key arr" and n2: "\<forall>x\<in>set arr. key x < 1000000000" by simp_all
    from radix_sort_eq[OF n1 n2, of h]
    obtain h' r where "radix_sort key h arr (length arr) = Some (h', r)" "mset r = mset arr"
      by blast
    then show ?thesis using mset_eq_length[of r arr] by blast
  qed
  have D2: "\<exists>h' r. counting_sort key h arr (length arr) = Some (h', r)
                \<and> (r = arr \<or> r = sort_key key arr)"
    if nn: "int32_nonneg key arr \<and> (\<forall>x\<in>set arr. key x < INT_MAX)"
  proof -
    from nn have n1: "int32_nonneg key arr" by simp
    from counting_sort_eq[OF n1, of h] show ?thesis by blast
  qed
  have E: "\<exists>m'. quicksort_functional key m p n = Some (m', None) \<and> blocks m' = blocks m"
    if "n \<le> 1 \<and> \<not> fst (alloc (outcomes m))"
  proof -
    from that have small: "n \<le> 1" and f: "\<not> fst (alloc (outcomes m))" by simp_all
    obtain res m1 where ma: "malloc m n = (res, m1)" by (cases "malloc m n") auto
    from malloc_cases[OF ma] f have "res = None" and "blocks m1 = blocks m" by auto
    then show ?thesis by (simp add: quicksort_functional_base[OF small ma])
  qed
  have F: "\<exists>m'. quicksort_functional key m (Some a) n = Some (m', None) \<and> blocks m' a = blocks m a"
    if p: "heap_ok m \<and> holds m a n xs \<and> 1 < n
            \<and> ((filter (\<lambda>x. key x < key (xs ! (n div 2))) xs \<noteq> [] \<and> \<not> fst (alloc (outcomes m)))
               \<or> \<not> fst (alloc (snd (alloc (outcomes m))))
               \<or> (filter (\<lambda>x. key (xs ! (n div 2)) < key x) xs \<noteq> []
                    \<and> \<not> fst (alloc (snd (alloc (snd (alloc (outcomes m))))))))"
  proof -
    define pv where "pv = xs ! (n div 2)"
    define L where "L = filter (\<lambda>x. key x < key pv) xs"
    define E where "E = filter (\<lambda>x. key x = key pv) xs"
    define G where "G = filter (\<lambda>x. key pv < key x) xs"
    from p have hk: "heap_ok m" and ho: "holds m a n xs" and big: "\<not> n \<le> 1" by simp_all
    from p have fail: "(L \<noteq> [] \<and> \<not> fst (alloc (outcomes m)))
               \<or> \<not> fst (alloc (snd (alloc (outcomes m))))
               \<or> (G \<noteq> [] \<and> \<not> fst (alloc (snd (alloc (snd (alloc (outcomes m)))))))"
      by (simp add: L_def G_def pv_def)
    have len: "length xs = n" using holds_length[OF ho] .
    have alive: "a < fresh m" using holds_live[OF ho hk] .
    have mid: "n div 2 < n" using big by simp
    have pv: "load m (Some a) (n div 2) = Some pv"
      unfolding pv_def by (rule load_holds[OF ho mid])
    have cl: "count_loop key m (Some a) n (key pv) 0 (0, 0, 0) = Some (length L, length E, length G)"
      using count_loop_eq[OF ho, of 0 key "key pv" 0 0 0] by (simp add: L_def E_def G_def)
    have "pv \<in> set xs" unfolding pv_def using mid len by simp
    then have "pv \<in> set E" by (simp add: E_def)
    then have ne: "0 < length E" by (cases E) auto
    obtain lb m1 where a1: "malloc m (length L) = (lb, m1)" by (cases "malloc m (length L)") auto
    obtain eb m2 where a2: "malloc m1 (length E) = (eb, m2)" by (cases "malloc m1 (length E)") auto
    obtain gb m3 where a3: "malloc m2 (length G) = (gb, m3)" by (cases "malloc m2 (length G)") auto
    note n1 = malloc_None[OF a1] and n2 = malloc_None[OF a2] and n3 = malloc_None[OF a3]
    have cond: "(length L > 0 \<and> lb = None) \<or> (length E > 0 \<and> eb = None) \<or> (length G > 0 \<and> gb = None)"
      using fail ne by (simp add: n1 n2 n3)
    have q: "quicksort_functional key m (Some a) n = Some (free (free (free m3 lb) eb) gb, None)"
      using cond by (simp add: quicksort_functional_rec[OF big pv cl a1 a2 a3])
    note k = quicksort_functional_keeps[OF q hk]
    have "blocks (free (free (free m3 lb) eb) gb) a = blocks m a"
      using keeps_blocks[OF conjunct1[OF k] alive] .
    then show ?thesis using q by blast
  qed
  show ?thesis
    using A mergesort_mset[of key h arr] mergesort_length[of key h arr] C D D2 E F by blast
qed

theorem allocation_failure_behaviour_witness:
  "(0 :: nat) \<le> 0 \<and> (0 :: nat) \<le> 1 \<and> 1 < length [2, 1 :: int] \<and> \<not> (fst (alloc [True, False]) \<and> fst (alloc (snd (alloc [True, False]))))
   \<and> merge (\<lambda>x. x) [True, False] [2, 1 :: int] 0 0 1 = ([], [2, 1])
   \<and> \<not> fst (alloc [False])
   \<and> counting_sort_by_digit (\<lambda>x. x) [False] [2, 1 :: int] 2 1 = Some ([], [2, 1])
   \<and> int32_nonneg (\<lambda>x. x) [2, 1 :: int]
   \<and> (2 :: int) < 1000000000 \<and> (1 :: int) < 1000000000 \<and> 2 < INT_MAX \<and> 1 < INT_MAX
   \<and> (\<exists>h' r. radix_sort (\<lambda>x. x) [True, False] [2, 1 :: int] (length [2, 1 :: int]) = Some (h', r)
         \<and> mset r = mset [2, 1] \<and> length r = length [2, 1 :: int])
   \<and> radix_sort (\<lambda>x. x) [False] [2, 1 :: int] 2 = Some ([], [2, 1])
   \<and> (\<exists>h' r. counting_sort (\<lambda>x. x) [True, False] [2, 1 :: int] (length [2, 1 :: int]) = Some (h', r)
         \<and> (r = [2, 1] \<or> r = sort_key (\<lambda>x. x) [2, 1]))
   \<and> counting_sort (\<lambda>x. x) [True, False] [2, 1 :: int] 2 = Some ([], [2, 1])
   \<and> heap_ok \<lparr>blocks = [0 \<mapsto> map Some [3, 1, 2 :: int]], fresh = 1, outcomes = [True, False]\<rparr>
   \<and> holds \<lparr>blocks = [0 \<mapsto> map Some [3, 1, 2 :: int]], fresh = 1, outcomes = [True, False]\<rparr> 0 3 [3, 1, 2]
   \<and> (1 :: nat) < 3
   \<and> \<not> fst (alloc (snd (alloc (outcomes
          \<lparr>blocks = [0 \<mapsto> map Some [3, 1, 2 :: int]], fresh = 1, outcomes = [True, False]\<rparr>))))
   \<and> (\<exists>m'. quicksort_functional (\<lambda>x. x)
          \<lparr>blocks = [0 \<mapsto> map Some [3, 1, 2 :: int]], fresh = 1, outcomes = [True, False]\<rparr> (Some 0) 3
            = Some (m', None)
         \<and> blocks m' 0 = Some (map Some [3, 1, 2]))
   \<and> (\<exists>m'. quicksort_functional (\<lambda>x. x)
          \<lparr>blocks = [0 \<mapsto> map Some [7 :: int]], fresh = 1, outcomes = [False]\<rparr> (Some 0) 1
            = Some (m', None)
         \<and> blocks m' 0 = Some (map Some [7]))"
proof -
  define m where "m = \<lparr>blocks = [0 \<mapsto> map Some [3, 1, 2 :: int]], fresh = 1, outcomes = [True, False]\<rparr>"
  define m1 where "m1 = \<lparr>blocks = [0 \<mapsto> map Some [7 :: int]], fresh = 1, outcomes = [False]\<rparr>"
  have b: "(0 :: nat) \<le> 0 \<and> (0 :: nat) \<le> 1 \<and> 1 < length [2, 1 :: int]
      \<and> \<not> (fst (alloc [True, False]) \<and> fst (alloc (snd (alloc [True, False]))))"
    by simp
  have f: "\<not> fst (alloc [False])" by simp
  have nn: "int32_nonneg (\<lambda>x. x) [2, 1 :: int]" by (simp add: int32_nonneg_def INT_MAX_def)
  have b9: "\<forall>x\<in>set [2, 1 :: int]. x < 1000000000" by simp
  have bm: "\<forall>x\<in>set [2, 1 :: int]. x < INT_MAX" by (simp add: INT_MAX_def)
  have bi: "(2 :: int) < 1000000000 \<and> (1 :: int) < 1000000000 \<and> 2 < INT_MAX \<and> 1 < INT_MAX"
    by (simp add: INT_MAX_def)
  have e: "counting_sort (\<lambda>x. x) [True, False] [2, 1 :: int] 2 = Some ([], [2, 1])" by code_simp
  have er: "radix_sort (\<lambda>x. x) [False] [2, 1 :: int] 2 = Some ([], [2, 1])" by code_simp
  have h: "heap_ok m" by (simp add: heap_ok_def m_def)
  have o: "holds m 0 3 [3, 1, 2]" by (simp add: holds_def m_def)
  have g: "(1 :: nat) < 3" by simp
  have f2: "\<not> fst (alloc (snd (alloc (outcomes m))))" by (simp add: m_def)
  have s1: "(1 :: nat) \<le> 1 \<and> \<not> fst (alloc (outcomes m1))" by (simp add: m1_def)
  have b0: "blocks m 0 = Some (map Some [3, 1, 2])" by (simp add: m_def)
  have b1: "blocks m1 0 = Some (map Some [7])" by (simp add: m1_def)
  note t = allocation_failure_behaviour[where left = 0 and mid = 0 and right = 1 and arr = "[2, 1]"
      and h = "[True, False]" and key = "\<lambda>x. x" and m = m and a = 0 and n = 3 and xs = "[3, 1, 2]"]
  note u = allocation_failure_behaviour[where arr = "[2, 1]" and h = "[False]" and key = "\<lambda>x. x"
      and sz = 2 and exp = 1 and n = 1 and m = m1 and p = "Some 0"]
  from t b have c1: "merge (\<lambda>x. x) [True, False] [2, 1 :: int] 0 0 1 = ([], [2, 1])" by simp
  from u f have c2: "counting_sort_by_digit (\<lambda>x. x) [False] [2, 1 :: int] 2 1 = Some ([], [2, 1])" by simp
  from t nn bm have c3: "\<exists>h' r. counting_sort (\<lambda>x. x) [True, False] [2, 1 :: int] (length [2, 1 :: int]) = Some (h', r)
         \<and> (r = [2, 1] \<or> r = sort_key (\<lambda>x. x) [2, 1])"
    by blast
  from t nn b9 have c6: "\<exists>h' r. radix_sort (\<lambda>x. x) [True, False] [2, 1 :: int] (length [2, 1 :: int]) = Some (h', r)
         \<and> mset r = mset [2, 1] \<and> length r = length [2, 1 :: int]"
    by blast
  from t h o g f2 have c4: "\<exists>m'. quicksort_functional (\<lambda>x. x) m (Some 0) 3 = Some (m', None)
         \<and> blocks m' 0 = Some (map Some [3, 1, 2])"
    unfolding b0 by blast
  from u s1 obtain m' where "quicksort_functional (\<lambda>x. x) m1 (Some 0) 1 = Some (m', None)"
    "blocks m' = blocks m1" by blast
  then have c5: "\<exists>m'. quicksort_functional (\<lambda>x. x) m1 (Some 0) 1 = Some (m', None)
         \<and> blocks m' 0 = Some (map Some [7])"
    using b1 by auto
  show ?thesis
    using b c1 f c2 nn bi c6 er c3 e h o g f2 c4 c5 unfolding m_def m1_def by blast
qed

end
